theory Spec2Isabelle
  imports Main "HOL-Library.Multiset"
begin

section \<open>Python values, exceptions and observable events\<close>

text \<open>
  The values that travel through \<^verbatim>\<open>pyblaze/multiprocessing/vectorize.py\<close>: items, results,
  the variadic call-site arguments and whatever \<^verbatim>\<open>worker_init\<close> returns. Tuples are a
  constructor of their own because \<^verbatim>\<open>_combine_args\<close> tests \<^verbatim>\<open>isinstance(b, tuple)\<close>.
\<close>

datatype val = VNone | VInt int | VStr string | VTuple "val list"

text \<open>
  Exceptions: \<open>ValueError\<close> is what \<^verbatim>\<open>np.array_split\<close> raises for a section count
  \<open>\<le> 0\<close>, \<open>IndexError\<close> is what \<^verbatim>\<open>a[-1]\<close> raises on an empty array, \<open>UserError\<close> is
  anything raised by the user's \<^verbatim>\<open>worker_func\<close> or \<^verbatim>\<open>worker_init\<close>.
\<close>

datatype exn = ValueError | IndexError | UserError string

type_synonym kwargs = "(string \<times> val) list"

text \<open>
  What the user-supplied callables are seen to do: a call of \<^verbatim>\<open>worker_init(rank, **kwargs)\<close>,
  a call of \<^verbatim>\<open>worker_func(item, *all_args)\<close> made in the context of rank \<open>rank\<close>.
\<close>

datatype event = InitCall nat kwargs | FuncCall nat val "val list"

fun rank_of :: "event \<Rightarrow> nat" where
  "rank_of (InitCall r kw) = r"
| "rank_of (FuncCall r item as) = r"

fun is_init :: "event \<Rightarrow> bool" where
  "is_init (InitCall r kw) = True"
| "is_init (FuncCall r item as) = False"

section \<open>The Vectorizer object\<close>

text \<open>
  \<^verbatim>\<open>_shutdown_fn\<close> is \<^verbatim>\<open>None\<close> or a \<^verbatim>\<open>functools.partial\<close> bound to the processes of a run;
  the number kept here is the number of processes it is bound to.
\<close>

datatype shutdown = Shutdown_batches nat | Shutdown_consumers nat

record vectorizer =
  num_workers :: int
  worker_func :: "val \<Rightarrow> val list \<Rightarrow> exn + val"
  worker_init :: "(nat \<Rightarrow> kwargs \<Rightarrow> exn + val) option"
  callback_func :: "unit option"
  init_kwargs :: kwargs
  shutdown_fn :: "shutdown option"

text \<open>\<^verbatim>\<open>Vectorizer.__init__\<close>; \<open>cpu_count\<close> stands for \<^verbatim>\<open>os.cpu_count()\<close>.\<close>

definition Vectorizer ::
  "int \<Rightarrow> (val \<Rightarrow> val list \<Rightarrow> exn + val) \<Rightarrow> (nat \<Rightarrow> kwargs \<Rightarrow> exn + val) option \<Rightarrow>
   unit option \<Rightarrow> int \<Rightarrow> kwargs \<Rightarrow> vectorizer" where
  "Vectorizer cpu_count wfunc winit cb nw kw =
     \<lparr> num_workers = (if nw = -1 then cpu_count else nw),
       worker_func = wfunc,
       worker_init = winit,
       callback_func = cb,
       init_kwargs = kw,
       shutdown_fn = None \<rparr>"

section \<open>Shared helpers\<close>

text \<open>
  \<^verbatim>\<open>_init_if_needed(init, rank, **kwargs)\<close>: returns \<^verbatim>\<open>None\<close> without calling anything when
  no init function is configured, else the result of the one call (which may raise).
  The first component is the call it made.
\<close>

definition init_if_needed ::
  "(nat \<Rightarrow> kwargs \<Rightarrow> exn + val) option \<Rightarrow> nat \<Rightarrow> kwargs \<Rightarrow> event list \<times> (exn + val)" where
  "init_if_needed init rank kw =
     (case init of
        None \<Rightarrow> ([], Inr VNone)
      | Some g \<Rightarrow> ([InitCall rank kw], g rank kw))"

text \<open>\<^verbatim>\<open>_combine_args(a, b)\<close>, with the source's order of tests.\<close>

fun combine_args :: "val list \<Rightarrow> val \<Rightarrow> val list" where
  "combine_args a VNone = a"
| "combine_args a (VTuple b) = a @ b"
| "combine_args a b = a @ [b]"

text \<open>
  The loop \<^verbatim>\<open>for item in items: result.append(worker_func(item, *all_args))\<close> of
  \<^verbatim>\<open>process\<close> (sequential branch) and of \<^verbatim>\<open>_batch_worker\<close>, where it also puts one tick per
  finished item when \<^verbatim>\<open>tick_queue is not None\<close>. The loop state is the trace of calls so
  far, the ticks put so far and the \<^verbatim>\<open>result\<close> list; an exception of \<^verbatim>\<open>worker_func\<close>
  leaves the loop.
\<close>

fun item_loop ::
  "(val \<Rightarrow> val list \<Rightarrow> exn + val) \<Rightarrow> nat \<Rightarrow> val list \<Rightarrow> bool \<Rightarrow> val list \<Rightarrow>
   event list \<times> nat \<times> val list \<Rightarrow> event list \<times> nat \<times> (exn + val list)" where
  "item_loop f rank all_args tick [] (tr, ticks, result) = (tr, ticks, Inr result)"
| "item_loop f rank all_args tick (item # items) (tr, ticks, result) =
     (case f item all_args of
        Inl e \<Rightarrow> (tr @ [FuncCall rank item all_args], ticks, Inl e)
      | Inr y \<Rightarrow>
          item_loop f rank all_args tick items
            (tr @ [FuncCall rank item all_args], (if tick then ticks + 1 else ticks), result @ [y]))"

section \<open>Results of a call of process\<close>

text \<open>
  A call of \<^verbatim>\<open>process\<close> returns a list, lets an exception escape, or blocks for ever in a
  \<^verbatim>\<open>Queue.get()\<close> that no process will ever serve (\<open>Hang\<close>).
\<close>

datatype outcome = Return "val list" | Raise exn | Hang

record run =
  outcome :: outcome
  callbacks :: nat
  spawned :: nat
  trace :: "event list"
  after :: vectorizer


section \<open>Static partitioning: \<^verbatim>\<open>_process_batches\<close>\<close>

subsection \<open>The numpy functions it calls\<close>

text \<open>
  Python's slice \<^verbatim>\<open>xs[st:en]\<close> for non-negative bounds: bounds beyond the length are
  clamped and \<open>en \<le> st\<close> gives the empty list.
\<close>

definition slice :: "'a list \<Rightarrow> nat \<Rightarrow> nat \<Rightarrow> 'a list" where
  "slice xs st en = take (en - st) (drop st xs)"

text \<open>\<^verbatim>\<open>cumsum\<close>: the running sums of a list.\<close>

fun cumsum_from :: "nat \<Rightarrow> nat list \<Rightarrow> nat list" where
  "cumsum_from acc [] = []"
| "cumsum_from acc (x # xs) = (acc + x) # cumsum_from (acc + x) xs"

definition cumsum :: "nat list \<Rightarrow> nat list" where
  "cumsum xs = cumsum_from 0 xs"

text \<open>
  \<^verbatim>\<open>np.array_split(ary, Nsections)\<close> for an integer section count, as numpy computes it:
  \<^verbatim>\<open>
  if Nsections <= 0: raise ValueError('number sections must be larger than 0.')
  Neach_section, extras = divmod(Ntotal, Nsections)
  section_sizes = [0] + extras * [Neach_section+1] + (Nsections-extras) * [Neach_section]
  div_points = array(section_sizes).cumsum()
  for i in range(Nsections): sub_arrays.append(ary[div_points[i]:div_points[i+1]])
  \<close>
\<close>

definition div_points :: "nat \<Rightarrow> nat \<Rightarrow> nat list" where
  "div_points ntotal n =
     (let neach = ntotal div n; extras = ntotal mod n
      in cumsum ([0] @ replicate extras (neach + 1) @ replicate (n - extras) neach))"

definition array_split :: "'a list \<Rightarrow> int \<Rightarrow> exn + 'a list list" where
  "array_split ary nsections =
     (if nsections \<le> 0 then Inl ValueError
      else let n = nat nsections; dp = div_points (length ary) n
           in Inr (map (\<lambda>i. slice ary (dp ! i) (dp ! (i + 1))) [0..<n]))"

subsection \<open>The shard boundaries\<close>

text \<open>
  \<^verbatim>\<open>[a[-1] + 1 for a in splits]\<close>: \<^verbatim>\<open>a[-1]\<close> raises IndexError on an empty array, and the
  comprehension stops at the first one.
\<close>

fun last_plus_one :: "nat list list \<Rightarrow> exn + nat list" where
  "last_plus_one [] = Inr []"
| "last_plus_one (a # as) =
     (if a = [] then Inl IndexError
      else case last_plus_one as of
             Inl e \<Rightarrow> Inl e
           | Inr bs \<Rightarrow> Inr ((last a + 1) # bs))"

text \<open>
  \<^verbatim>\<open>splits = np.array_split(np.arange(num_items), self.num_workers)\<close>,
  \<^verbatim>\<open>splits = [0] + [a[-1] + 1 for a in splits]\<close>.
\<close>

definition batch_splits :: "nat \<Rightarrow> int \<Rightarrow> exn + nat list" where
  "batch_splits num_items nw =
     (case array_split [0..<num_items] nw of
        Inl e \<Rightarrow> Inl e
      | Inr parts \<Rightarrow>
          (case last_plus_one parts of
             Inl e \<Rightarrow> Inl e
           | Inr bs \<Rightarrow> Inr ([0] @ bs)))"

text \<open>The shards handed to the workers: \<^verbatim>\<open>items[splits[i]:splits[i+1]]\<close> for each rank.\<close>

definition batch_shards :: "'a list \<Rightarrow> int \<Rightarrow> exn + 'a list list" where
  "batch_shards items nw =
     (case batch_splits (length items) nw of
        Inl e \<Rightarrow> Inl e
      | Inr splits \<Rightarrow>
          Inr (map (\<lambda>i. slice items (splits ! i) (splits ! (i + 1))) [0..<nat nw]))"

subsection \<open>The worker process and the orchestrating thread\<close>

text \<open>
  \<^verbatim>\<open>_batch_worker\<close>: one call of the init function, one merge of the arguments, the loop
  over the shard, then the bundle is put on the worker's own queue and the worker waits
  for \<^verbatim>\<open>done\<close>. A worker in which \<^verbatim>\<open>worker_init\<close> or \<^verbatim>\<open>worker_func\<close> raises dies without
  putting a bundle. The value is the worker's trace, the ticks it put and its bundle.
\<close>

definition batch_worker ::
  "bool \<Rightarrow> nat \<Rightarrow> (val \<Rightarrow> val list \<Rightarrow> exn + val) \<Rightarrow> (nat \<Rightarrow> kwargs \<Rightarrow> exn + val) option \<Rightarrow>
   kwargs \<Rightarrow> val list \<Rightarrow> val list \<Rightarrow> event list \<times> nat \<times> (exn + val list)" where
  "batch_worker tick rank wfunc winit kw items args =
     (case init_if_needed winit rank kw of
        (tr, Inl e) \<Rightarrow> (tr, 0, Inl e)
      | (tr, Inr init) \<Rightarrow> item_loop wfunc rank (combine_args args init) tick items (tr, 0, []))"

text \<open>
  \<^verbatim>\<open>for _ in range(num_items): tick_queue.get(); self.callback_func()\<close> against the ticks
  the workers ever put: the loop blocks for ever once they are used up. The value tells
  whether the loop was left, and the callbacks made.
\<close>

fun await_ticks :: "nat \<Rightarrow> nat \<Rightarrow> nat \<Rightarrow> bool \<times> nat" where
  "await_ticks 0 avail cbs = (True, cbs)"
| "await_ticks (Suc n) 0 cbs = (False, cbs)"
| "await_ticks (Suc n) (Suc avail) cbs = await_ticks n avail (cbs + 1)"

text \<open>
  \<^verbatim>\<open>for i, q in enumerate(queues): result.extend(q.get())\<close>: the queue of a worker that
  died stays empty and the \<^verbatim>\<open>get\<close> never returns (\<open>None\<close>).
\<close>

fun collect :: "(exn + val list) list \<Rightarrow> val list \<Rightarrow> val list option" where
  "collect [] result = Some result"
| "collect (Inl e # qs) result = None"
| "collect (Inr bundle # qs) result = collect qs (result @ bundle)"

text \<open>
  The spawn loop of \<^verbatim>\<open>_process_batches\<close>: worker \<open>i\<close> gets
  \<^verbatim>\<open>items[splits[i]:splits[i+1]]\<close>. The workers do not communicate with one another, so
  each one's behaviour is the function \<open>batch_worker\<close> of its rank and shard.
\<close>

definition batch_workers ::
  "vectorizer \<Rightarrow> val list \<Rightarrow> val list \<Rightarrow> nat list \<Rightarrow> (event list \<times> nat \<times> (exn + val list)) list" where
  "batch_workers v items args splits =
     map (\<lambda>i. batch_worker (callback_func v \<noteq> None) i (worker_func v) (worker_init v)
                (init_kwargs v) (slice items (splits ! i) (splits ! (i + 1))) args)
         [0..<nat (num_workers v)]"

text \<open>
  The rest of \<^verbatim>\<open>_process_batches\<close>, after \<^verbatim>\<open>_shutdown_fn\<close> has been set: the tick loop
  when a callback is configured, then one \<^verbatim>\<open>get\<close> per worker queue in rank order. The
  trace lists the workers' events rank by rank.
\<close>

definition batch_collect ::
  "vectorizer \<Rightarrow> nat \<Rightarrow> (event list \<times> nat \<times> (exn + val list)) list \<Rightarrow> run" where
  "batch_collect v num_items ws =
     (let w = length ws;
          v' = v\<lparr> shutdown_fn := Some (Shutdown_batches w) \<rparr>;
          tr = concat (map fst ws);
          (left, cbs) = (if callback_func v \<noteq> None
                         then await_ticks num_items (sum_list (map (\<lambda>w. fst (snd w)) ws)) 0
                         else (True, 0))
      in if \<not> left
         then \<lparr> outcome = Hang, callbacks = cbs, spawned = w, trace = tr, after = v' \<rparr>
         else (case collect (map (\<lambda>w. snd (snd w)) ws) [] of
                 None \<Rightarrow> \<lparr> outcome = Hang, callbacks = cbs, spawned = w, trace = tr, after = v' \<rparr>
               | Some res \<Rightarrow>
                   \<lparr> outcome = Return res, callbacks = cbs, spawned = w, trace = tr,
                     after = v' \<rparr>))"

text \<open>
  \<^verbatim>\<open>_process_batches\<close>. The split is computed before anything is spawned, so its exceptions
  escape with no worker started and \<^verbatim>\<open>_shutdown_fn\<close> untouched.
\<close>

definition process_batches :: "vectorizer \<Rightarrow> val list \<Rightarrow> val list \<Rightarrow> run" where
  "process_batches v items args =
     (case batch_splits (length items) (num_workers v) of
        Inl e \<Rightarrow> \<lparr> outcome = Raise e, callbacks = 0, spawned = 0, trace = [], after = v \<rparr>
      | Inr splits \<Rightarrow> batch_collect v (length items) (batch_workers v items args splits))"

section \<open>Sequential execution\<close>

text \<open>
  The branch \<^verbatim>\<open>if self.num_workers == 0\<close> of \<^verbatim>\<open>process\<close>: the init function is called with
  rank 0, the arguments are merged once, the items are mapped in order. Nothing is
  spawned and \<^verbatim>\<open>callback_func\<close> is not mentioned in this branch.
\<close>

definition process_sequential :: "vectorizer \<Rightarrow> val list \<Rightarrow> val list \<Rightarrow> run" where
  "process_sequential v items args =
     (case init_if_needed (worker_init v) 0 (init_kwargs v) of
        (tr, Inl e) \<Rightarrow> \<lparr> outcome = Raise e, callbacks = 0, spawned = 0, trace = tr, after = v \<rparr>
      | (tr, Inr init) \<Rightarrow>
          (case item_loop (worker_func v) 0 (combine_args args init) False items (tr, 0, []) of
             (tr', ticks, Inl e) \<Rightarrow>
               \<lparr> outcome = Raise e, callbacks = 0, spawned = 0, trace = tr', after = v \<rparr>
           | (tr', ticks, Inr res) \<Rightarrow>
               \<lparr> outcome = Return res, callbacks = 0, spawned = 0, trace = tr', after = v \<rparr>))"


section \<open>Dynamic distribution: \<^verbatim>\<open>_process_consumers\<close>\<close>

text \<open>
  Here the worker processes and the orchestrating thread interact through two shared
  queues, so the mode is a transition system: one deterministic step function for the
  orchestrating thread, one for each worker, and a schedule that says who moves next.
  A \<^verbatim>\<open>Queue.get()\<close> on an empty queue is a step that is not enabled.

  A worker (\<^verbatim>\<open>_consumer_worker\<close>) has been spawned and has not run yet, waits at
  \<^verbatim>\<open>pull_queue.get()\<close> with its merged arguments, holds an item it has taken, has ended
  (it left its loop on the sentinel \<^verbatim>\<open>None\<close>, or was terminated), or has died from an
  exception.
\<close>

datatype wstate = Spawned | Idle "val list" | Busy "val list" nat val | Exited | Dead

text \<open>
  The orchestrating thread is in the priming loop with so many iterations left, at the
  \<^verbatim>\<open>pull_queue.get()\<close> of the \<^verbatim>\<open>while True\<close> loop, at its \<^verbatim>\<open>next(iterator)\<close>, in the loop
  of the \<^verbatim>\<open>except StopIteration\<close> handler with so many iterations left, or at the
  \<^verbatim>\<open>return\<close>.
\<close>

datatype pc = Prime nat | Await | Refill | Drain nat | Finished

text \<open>
  The queues are named as in \<^verbatim>\<open>_process_consumers\<close>: \<open>push_queue\<close> carries work to the
  workers (\<^verbatim>\<open>(index, item)\<close>, or the sentinel \<^verbatim>\<open>None\<close>), \<open>pull_queue\<close> carries
  \<^verbatim>\<open>(idx, result)\<close> back.
\<close>

record cstate =
  workers :: "wstate list"
  push_queue :: "(nat \<times> val) option list"
  pull_queue :: "(nat \<times> val) list"
  iterator :: "val list"
  index :: nat
  expect :: int
  result :: "(nat \<times> val) list"
  cb_calls :: nat
  pc :: pc
  events :: "event list"

definition consumers_init :: "vectorizer \<Rightarrow> val list \<Rightarrow> cstate" where
  "consumers_init v items =
     \<lparr> workers = replicate (nat (num_workers v)) Spawned,
       push_queue = [],
       pull_queue = [],
       iterator = items,
       index = 0,
       expect = 0,
       result = [],
       cb_calls = 0,
       pc = Prime (nat (num_workers v)),
       events = [] \<rparr>"

text \<open>
  \<^verbatim>\<open>item = next(iterator); expect += 1; push_queue.put((index, item)); index += 1\<close>, or
  the jump to the handler when \<^verbatim>\<open>next\<close> raises StopIteration; \<open>nxt\<close> is where the thread
  continues after the put.
\<close>

definition dispatch :: "pc \<Rightarrow> cstate \<Rightarrow> cstate" where
  "dispatch nxt s =
     (case iterator s of
        [] \<Rightarrow> s\<lparr> pc := Drain (nat (expect s)) \<rparr>
      | item # rest \<Rightarrow>
          s\<lparr> iterator := rest,
             expect := expect s + 1,
             push_queue := push_queue s @ [Some (index s, item)],
             index := index s + 1,
             pc := nxt \<rparr>)"

text \<open>
  \<^verbatim>\<open>result.append(pull_queue.get())\<close> and the callback, if one is configured; not enabled
  while the queue is empty.
\<close>

definition receive :: "bool \<Rightarrow> cstate \<Rightarrow> cstate option" where
  "receive cb s =
     (case pull_queue s of
        [] \<Rightarrow> None
      | r # q \<Rightarrow>
          Some (s\<lparr> pull_queue := q,
                   result := result s @ [r],
                   cb_calls := (if cb then cb_calls s + 1 else cb_calls s) \<rparr>))"

definition main_step :: "vectorizer \<Rightarrow> cstate \<Rightarrow> cstate option" where
  "main_step v s =
     (case pc s of
        Prime 0 \<Rightarrow> Some (s\<lparr> pc := Await \<rparr>)
      | Prime (Suc k) \<Rightarrow> Some (dispatch (Prime k) s)
      | Await \<Rightarrow>
          (case receive (callback_func v \<noteq> None) s of
             None \<Rightarrow> None
           | Some s' \<Rightarrow> Some (s'\<lparr> expect := expect s' - 1, pc := Refill \<rparr>))
      | Refill \<Rightarrow> Some (dispatch Await s)
      | Drain 0 \<Rightarrow> Some (s\<lparr> pc := Finished \<rparr>)
      | Drain (Suc k) \<Rightarrow>
          (case receive (callback_func v \<noteq> None) s of
             None \<Rightarrow> None
           | Some s' \<Rightarrow> Some (s'\<lparr> pc := Drain k \<rparr>))
      | Finished \<Rightarrow> None)"

text \<open>
  \<^verbatim>\<open>_consumer_worker\<close> with rank \<open>r\<close>: the init call and the merge, then again and again
  \<^verbatim>\<open>pull_queue.get()\<close> (its \<^verbatim>\<open>pull_queue\<close> is the orchestrator's \<open>push_queue\<close>), the call
  of \<^verbatim>\<open>worker_func\<close> and the put of \<^verbatim>\<open>(idx, result)\<close>. Taking an item and delivering its
  result are two steps, so that workers overtake one another.
\<close>

definition worker_step ::
  "nat \<Rightarrow> (val \<Rightarrow> val list \<Rightarrow> exn + val) \<Rightarrow> (nat \<Rightarrow> kwargs \<Rightarrow> exn + val) option \<Rightarrow> kwargs \<Rightarrow>
   val list \<Rightarrow> cstate \<Rightarrow> cstate option" where
  "worker_step r wfunc winit kw args s =
     (if length (workers s) \<le> r then None
      else case workers s ! r of
        Spawned \<Rightarrow>
          (case init_if_needed winit r kw of
             (ev, Inl e) \<Rightarrow>
               Some (s\<lparr> workers := (workers s)[r := Dead], events := events s @ ev \<rparr>)
           | (ev, Inr init) \<Rightarrow>
               Some (s\<lparr> workers := (workers s)[r := Idle (combine_args args init)],
                        events := events s @ ev \<rparr>))
      | Idle all_args \<Rightarrow>
          (case push_queue s of
             [] \<Rightarrow> None
           | None # q \<Rightarrow> Some (s\<lparr> push_queue := q, workers := (workers s)[r := Exited] \<rparr>)
           | Some (idx, item) # q \<Rightarrow>
               Some (s\<lparr> push_queue := q, workers := (workers s)[r := Busy all_args idx item] \<rparr>))
      | Busy all_args idx item \<Rightarrow>
          (case wfunc item all_args of
             Inl e \<Rightarrow>
               Some (s\<lparr> workers := (workers s)[r := Dead],
                        events := events s @ [FuncCall r item all_args] \<rparr>)
           | Inr y \<Rightarrow>
               Some (s\<lparr> workers := (workers s)[r := Idle all_args],
                        pull_queue := pull_queue s @ [(idx, y)],
                        events := events s @ [FuncCall r item all_args] \<rparr>))
      | Exited \<Rightarrow> None
      | Dead \<Rightarrow> None)"

text \<open>
  The actors of a run: the orchestrating thread and the processes started by
  \<^verbatim>\<open>mp.Process(target=_consumer_worker, args=(push_queue, pull_queue, i, self.worker_func,
  self.worker_init, self.init_kwargs, *args))\<close>.
\<close>

datatype actor = Main | Worker nat

fun step :: "vectorizer \<Rightarrow> val list \<Rightarrow> actor \<Rightarrow> cstate \<Rightarrow> cstate option" where
  "step v args Main s = main_step v s"
| "step v args (Worker r) s =
     worker_step r (worker_func v) (worker_init v) (init_kwargs v) args s"

text \<open>Running a schedule; \<open>None\<close> when it names an actor that cannot move.\<close>

fun exec :: "vectorizer \<Rightarrow> val list \<Rightarrow> actor list \<Rightarrow> cstate \<Rightarrow> cstate option" where
  "exec v args [] s = Some s"
| "exec v args (a # sched) s =
     (case step v args a s of
        None \<Rightarrow> None
      | Some s' \<Rightarrow> exec v args sched s')"

text \<open>No actor can move: the orchestrating thread is blocked and will stay so.\<close>

definition stuck :: "vectorizer \<Rightarrow> val list \<Rightarrow> cstate \<Rightarrow> bool" where
  "stuck v args s \<longleftrightarrow>
     list_all (\<lambda>a. step v args a s = None) (Main # map Worker [0..<length (workers s)])"

text \<open>
  Dispatched and not yet received: \<^verbatim>\<open>index\<close> counts the puts on the work queue, the
  length of \<^verbatim>\<open>result\<close> the results taken from the result queue.
\<close>

definition in_flight :: "cstate \<Rightarrow> int" where
  "in_flight s = int (index s) - int (length (result s))"

text \<open>
  \<^verbatim>\<open>_process_consumers\<close> under a schedule: the run it describes has returned
  (\<^verbatim>\<open>[r[1] for r in sorted(result, key=lambda r: r[0])]\<close>), is blocked for ever, or is
  not over yet (\<open>None\<close>).
\<close>

definition process_consumers ::
  "vectorizer \<Rightarrow> val list \<Rightarrow> val list \<Rightarrow> actor list \<Rightarrow> run option" where
  "process_consumers v items args sched =
     (case exec v args sched (consumers_init v items) of
        None \<Rightarrow> None
      | Some s \<Rightarrow>
          (let v' = v\<lparr> shutdown_fn := Some (Shutdown_consumers (nat (num_workers v))) \<rparr> in
           if pc s = Finished
           then Some \<lparr> outcome = Return (map snd (sort_key fst (result s))),
                       callbacks = cb_calls s, spawned = length (workers s),
                       trace = events s, after = v' \<rparr>
           else if stuck v args s
           then Some \<lparr> outcome = Hang, callbacks = cb_calls s, spawned = length (workers s),
                       trace = events s, after = v' \<rparr>
           else None))"



section \<open>\<^verbatim>\<open>Vectorizer.process\<close>\<close>

text \<open>
  An input either supports index access (\<^verbatim>\<open>hasattr(items, '__getitem__')\<close>) or can only
  be iterated.
\<close>

datatype items = Indexable "val list" | Iterable "val list"

fun elems :: "items \<Rightarrow> val list" where
  "elems (Indexable xs) = xs"
| "elems (Iterable xs) = xs"

text \<open>
  \<^verbatim>\<open>self._shutdown_fn(); self._shutdown_fn = None; return result\<close>: reached only when the
  scheduler returned. The shutdown function sets \<^verbatim>\<open>done\<close> or puts the sentinels and
  terminates every process of the run; an exception or a blocked scheduler leaves
  \<^verbatim>\<open>_shutdown_fn\<close> as the scheduler set it.
\<close>

definition release :: "run \<Rightarrow> run" where
  "release r =
     (case outcome r of
        Return ys \<Rightarrow> r\<lparr> after := (after r)\<lparr> shutdown_fn := None \<rparr> \<rparr>
      | Raise e \<Rightarrow> r
      | Hang \<Rightarrow> r)"

text \<open>
  \<^verbatim>\<open>process(items, *args)\<close>. The schedule matters in the dynamic mode only. Neither
  \<^verbatim>\<open>num_workers\<close> nor \<^verbatim>\<open>_shutdown_fn\<close> is checked anywhere before the mode is chosen.
\<close>

definition process :: "vectorizer \<Rightarrow> items \<Rightarrow> val list \<Rightarrow> actor list \<Rightarrow> run option" where
  "process v its args sched =
     (if num_workers v = 0 then Some (process_sequential v (elems its) args)
      else case its of
        Indexable xs \<Rightarrow> Some (release (process_batches v xs args))
      | Iterable xs \<Rightarrow> map_option release (process_consumers v xs args sched))"

section \<open>Reference functions for the properties\<close>

text \<open>
  Closed form of the shard boundaries: the first \<open>ntotal mod n\<close> shards have one element
  more than the others.
\<close>

definition shard_start :: "nat \<Rightarrow> nat \<Rightarrow> nat \<Rightarrow> nat" where
  "shard_start ntotal n i = i * (ntotal div n) + min i (ntotal mod n)"

text \<open>
  The merged arguments a worker of rank \<open>r\<close> passes to every call of \<^verbatim>\<open>worker_func\<close>, when
  its init call returns.
\<close>

definition worker_args :: "vectorizer \<Rightarrow> val list \<Rightarrow> nat \<Rightarrow> val list option" where
  "worker_args v args r =
     (case snd (init_if_needed (worker_init v) r (init_kwargs v)) of
        Inl e \<Rightarrow> None
      | Inr init \<Rightarrow> Some (combine_args args init))"

text \<open>The calls of the init function a worker of rank \<open>r\<close> makes.\<close>

definition init_events :: "vectorizer \<Rightarrow> nat \<Rightarrow> event list" where
  "init_events v r = fst (init_if_needed (worker_init v) r (init_kwargs v))"

text \<open>
  Every one of the first \<open>w\<close> ranks gets through its init call, and with its merged
  arguments \<^verbatim>\<open>worker_func\<close> returns \<open>g x\<close> on every item \<open>x\<close> of \<open>xs\<close>: the transform
  does not raise on these items and its results do not depend on the rank.
\<close>

definition uniform ::
  "vectorizer \<Rightarrow> val list \<Rightarrow> nat \<Rightarrow> val list \<Rightarrow> (val \<Rightarrow> val) \<Rightarrow> bool" where
  "uniform v args w xs g \<longleftrightarrow>
     list_all (\<lambda>r. case worker_args v args r of
                      None \<Rightarrow> False
                    | Some aa \<Rightarrow> list_all (\<lambda>x. worker_func v x aa = Inr (g x)) xs) [0..<w]"

section \<open>Invariants of the dynamic mode\<close>

text \<open>
  What the counters of the orchestrating thread satisfy at each of its program points,
  for \<open>w\<close> workers: the priming loop dispatches without receiving, the \<^verbatim>\<open>while\<close> loop
  keeps the pipeline full, the handler only receives.
\<close>

fun flow_at :: "nat \<Rightarrow> pc \<Rightarrow> nat \<Rightarrow> int \<Rightarrow> nat \<Rightarrow> bool" where
  "flow_at w (Prime k) idx ex received \<longleftrightarrow> idx + k = w \<and> received = 0 \<and> ex = int idx"
| "flow_at w Await idx ex received \<longleftrightarrow> idx = received + w \<and> ex = int w"
| "flow_at w Refill idx ex received \<longleftrightarrow> idx + 1 = received + w \<and> ex = int w - 1"
| "flow_at w (Drain k) idx ex received \<longleftrightarrow> idx = received + k \<and> k \<le> w"
| "flow_at w Finished idx ex received \<longleftrightarrow> idx = received"

definition flow :: "nat \<Rightarrow> cstate \<Rightarrow> bool" where
  "flow w s \<longleftrightarrow> flow_at w (pc s) (index s) (expect s) (length (result s))"

section \<open>The init protocol and the merged arguments, in the spec's words\<close>

text \<open>
  A trace follows the init protocol when no rank is initialised twice and every call of
  \<^verbatim>\<open>worker_func\<close> in the context of a rank comes after the init call of that rank;
  \<open>seen\<close> are the ranks initialised so far.
\<close>

fun disciplined :: "nat set \<Rightarrow> event list \<Rightarrow> bool" where
  "disciplined seen [] = True"
| "disciplined seen (InitCall r kw # tr) = (r \<notin> seen \<and> disciplined (insert r seen) tr)"
| "disciplined seen (FuncCall r x as # tr) = (r \<in> seen \<and> disciplined seen tr)"

text \<open>The ranks of the init calls of a trace, in order.\<close>

definition init_ranks :: "event list \<Rightarrow> nat list" where
  "init_ranks tr = map rank_of (filter is_init tr)"

text \<open>
  The init-derived arguments: nothing for \<^verbatim>\<open>None\<close>, the elements of a tuple, else the
  value itself.
\<close>

fun init_derived :: "val \<Rightarrow> val list" where
  "init_derived VNone = []"
| "init_derived (VTuple b) = b"
| "init_derived b = [b]"

section \<open>Invariants of the traces of the dynamic mode\<close>

text \<open>Every event belongs to a worker and carries what that worker was given.\<close>

fun event_ok :: "vectorizer \<Rightarrow> val list \<Rightarrow> nat \<Rightarrow> event \<Rightarrow> bool" where
  "event_ok v args w (InitCall r kw) \<longleftrightarrow> r < w \<and> worker_init v \<noteq> None \<and> kw = init_kwargs v"
| "event_ok v args w (FuncCall r x aa) \<longleftrightarrow> r < w \<and> worker_args v args r = Some aa"

text \<open>
  A worker that has not run yet has left no event; one that has run has made its init
  call, if an init function is configured, and holds the merged arguments of its rank.
\<close>

definition started :: "vectorizer \<Rightarrow> event list \<Rightarrow> nat \<Rightarrow> bool" where
  "started v tr r \<longleftrightarrow> (worker_init v \<noteq> None \<longrightarrow> r \<in> set (init_ranks tr))"

fun worker_ok :: "vectorizer \<Rightarrow> val list \<Rightarrow> event list \<Rightarrow> nat \<Rightarrow> wstate \<Rightarrow> bool" where
  "worker_ok v args tr r Spawned \<longleftrightarrow> r \<notin> rank_of ` set tr"
| "worker_ok v args tr r (Idle aa) \<longleftrightarrow> worker_args v args r = Some aa \<and> started v tr r"
| "worker_ok v args tr r (Busy aa i x) \<longleftrightarrow> worker_args v args r = Some aa \<and> started v tr r"
| "worker_ok v args tr r Exited \<longleftrightarrow> started v tr r"
| "worker_ok v args tr r Dead \<longleftrightarrow> started v tr r"

definition trace_ok :: "vectorizer \<Rightarrow> val list \<Rightarrow> cstate \<Rightarrow> bool" where
  "trace_ok v args s \<longleftrightarrow>
     (\<forall>e \<in> set (events s). event_ok v args (length (workers s)) e) \<and>
     (\<forall>r < length (workers s). worker_ok v args (events s) r (workers s ! r)) \<and>
     (worker_init v \<noteq> None \<longrightarrow> disciplined {} (events s)) \<and>
     distinct (init_ranks (events s))"

text \<open>
  The shape of the trace of one worker of rank \<open>r\<close>, in every mode: its init call, if any,
  then calls of \<^verbatim>\<open>worker_func\<close> that all carry the merged arguments of that rank.
\<close>

definition worker_trace :: "vectorizer \<Rightarrow> val list \<Rightarrow> nat \<Rightarrow> event list \<Rightarrow> bool" where
  "worker_trace v args r tr \<longleftrightarrow>
     (\<exists>calls aa. tr = init_events v r @ map (\<lambda>x. FuncCall r x aa) calls \<and>
                 (calls = [] \<or> worker_args v args r = Some aa))"

section \<open>Invariants of the queues of the dynamic mode\<close>

text \<open>
  The orchestrating thread has consumed exactly the items it has dispatched, and in the
  handler the iterator is exhausted.
\<close>

fun draining :: "pc \<Rightarrow> bool" where
  "draining (Drain k) = True"
| "draining Finished = True"
| "draining p = False"

definition main_ok :: "nat \<Rightarrow> val list \<Rightarrow> cstate \<Rightarrow> bool" where
  "main_ok w xs s \<longleftrightarrow>
     flow w s \<and> drop (index s) xs = iterator s \<and> index s \<le> length xs \<and>
     (draining (pc s) \<longrightarrow> iterator s = [])"

text \<open>
  What the queues and the workers hold when nothing raises: work items are pairs of an
  index and the item at that index, results are pairs of an index and the transform's
  result for that item, no sentinel has been sent and no worker has died.
\<close>

fun work_ok :: "val list \<Rightarrow> (nat \<times> val) option \<Rightarrow> bool" where
  "work_ok xs None = False"
| "work_ok xs (Some (i, x)) = (i < length xs \<and> x = xs ! i)"

fun worker_good :: "vectorizer \<Rightarrow> val list \<Rightarrow> val list \<Rightarrow> nat \<Rightarrow> wstate \<Rightarrow> bool" where
  "worker_good v args xs r Spawned = True"
| "worker_good v args xs r (Idle aa) = (worker_args v args r = Some aa)"
| "worker_good v args xs r (Busy aa i x) =
     (worker_args v args r = Some aa \<and> i < length xs \<and> x = xs ! i)"
| "worker_good v args xs r Exited = False"
| "worker_good v args xs r Dead = False"

definition res_ok :: "val list \<Rightarrow> (val \<Rightarrow> val) \<Rightarrow> nat \<times> val \<Rightarrow> bool" where
  "res_ok xs g p \<longleftrightarrow> fst p < length xs \<and> snd p = g (xs ! fst p)"

definition content_ok :: "vectorizer \<Rightarrow> val list \<Rightarrow> val list \<Rightarrow> (val \<Rightarrow> val) \<Rightarrow> cstate \<Rightarrow> bool" where
  "content_ok v args xs g s \<longleftrightarrow>
     length (workers s) = nat (num_workers v) \<and>
     list_all (work_ok xs) (push_queue s) \<and>
     (\<forall>r < length (workers s). worker_good v args xs r (workers s ! r)) \<and>
     list_all (res_ok xs g) (pull_queue s) \<and>
     list_all (res_ok xs g) (result s)"

text \<open>
  Where the indices dispatched so far are: in the work queue, held by a worker, in the
  result queue or in \<^verbatim>\<open>result\<close>; each of them in exactly one place.
\<close>

fun work_idx :: "(nat \<times> val) option \<Rightarrow> nat multiset" where
  "work_idx None = {#}"
| "work_idx (Some (i, x)) = {#i#}"

fun held :: "wstate \<Rightarrow> nat multiset" where
  "held (Busy aa i x) = {#i#}"
| "held w = {#}"

definition tokens :: "cstate \<Rightarrow> nat multiset" where
  "tokens s =
     sum_list (map work_idx (push_queue s)) + sum_list (map held (workers s)) +
     mset (map fst (pull_queue s)) + mset (map fst (result s))"

definition sound :: "vectorizer \<Rightarrow> val list \<Rightarrow> val list \<Rightarrow> (val \<Rightarrow> val) \<Rightarrow> cstate \<Rightarrow> bool" where
  "sound v args xs g s \<longleftrightarrow>
     main_ok (nat (num_workers v)) xs s \<and> content_ok v args xs g s \<and>
     tokens s = mset [0..<index s]"

text \<open>
  A quantity that every step decreases: what is still to be iterated, queued, computed,
  initialised, received, and the distance of the orchestrating thread from its return.
\<close>

fun pc_weight :: "pc \<Rightarrow> nat" where
  "pc_weight (Prime k) = 3"
| "pc_weight Await = 2"
| "pc_weight Refill = 2"
| "pc_weight (Drain k) = 1"
| "pc_weight Finished = 0"

fun worker_weight :: "wstate \<Rightarrow> nat" where
  "worker_weight Spawned = 1"
| "worker_weight (Busy aa i x) = 2"
| "worker_weight w = 0"

definition meas :: "cstate \<Rightarrow> nat" where
  "meas s =
     4 * length (iterator s) + 3 * length (push_queue s) +
     sum_list (map worker_weight (workers s)) + length (pull_queue s) + pc_weight (pc s)"

section \<open>Example configurations\<close>

text \<open>A transform that squares integers and raises on anything else.\<close>

fun square :: "val \<Rightarrow> val list \<Rightarrow> exn + val" where
  "square (VInt n) as = Inr (VInt (n * n))"
| "square x as = Inl (UserError ''not an integer'')"

fun squared :: "val \<Rightarrow> val" where
  "squared (VInt n) = VInt (n * n)"
| "squared x = x"

text \<open>A transform that returns its last extra argument.\<close>

definition last_arg :: "val \<Rightarrow> val list \<Rightarrow> exn + val" where
  "last_arg x as = (if as = [] then Inl (UserError ''no argument'') else Inr (last as))"

text \<open>An init function that returns the rank, and one that returns a pair wrapped in a 1-tuple.\<close>

definition rank_init :: "nat \<Rightarrow> kwargs \<Rightarrow> exn + val" where
  "rank_init r kw = Inr (VInt (int r))"

definition wrapped_pair_init :: "nat \<Rightarrow> kwargs \<Rightarrow> exn + val" where
  "wrapped_pair_init r kw = Inr (VTuple [VTuple [VInt 1, VInt 2]])"

text \<open>An init function that returns a pair.\<close>

definition pair_init :: "nat \<Rightarrow> kwargs \<Rightarrow> exn + val" where
  "pair_init r kw = Inr (VTuple [VInt 1, VInt 2])"
section \<open>Properties of the shared loop and of the split\<close>

lemma item_loop_all_ok:
  "(\<And>x. x \<in> set items \<Longrightarrow> f x aa = Inr (g x)) \<Longrightarrow>
   item_loop f r aa tick items (tr, t, res) =
     (tr @ map (\<lambda>x. FuncCall r x aa) items, (if tick then t + length items else t),
      Inr (res @ map g items))"
  by (induction items arbitrary: tr t res) auto

lemma item_loop_fails:
  "(\<And>x. x \<in> set pre \<Longrightarrow> f x aa = Inr (g x)) \<Longrightarrow> f x aa = Inl e \<Longrightarrow>
   item_loop f r aa tick (pre @ x # post) (tr, t, res) =
     (tr @ map (\<lambda>x. FuncCall r x aa) (pre @ [x]), (if tick then t + length pre else t), Inl e)"
  by (induction pre arbitrary: tr t res) auto

lemma item_loop_trace:
  "item_loop f r aa tick items (tr, t, res) = (tr', t', out) \<Longrightarrow>
   \<exists>calls. tr' = tr @ map (\<lambda>x. FuncCall r x aa) calls \<and> calls = take (length calls) items"
proof (induction items arbitrary: tr t res)
  case Nil
  then show ?case by auto
next
  case (Cons x xs)
  show ?case
  proof (cases "f x aa")
    case (Inl e)
    with Cons.prems have "tr' = tr @ map (\<lambda>x. FuncCall r x aa) [x]" by auto
    moreover have "[x] = take (length [x]) (x # xs)" by simp
    ultimately show ?thesis by blast
  next
    case (Inr y)
    with Cons.prems obtain calls where
      c: "tr' = (tr @ [FuncCall r x aa]) @ map (\<lambda>x. FuncCall r x aa) calls" "calls = take (length calls) xs"
      using Cons.IH by fastforce
    then have "tr' = tr @ map (\<lambda>x. FuncCall r x aa) (x # calls)" "x # calls = take (length (x # calls)) (x # xs)"
      by auto
    then show ?thesis by blast
  qed
qed

lemma cumsum_from_append:
  "cumsum_from acc (xs @ ys) = cumsum_from acc xs @ cumsum_from (acc + sum_list xs) ys"
  by (induction xs arbitrary: acc) (auto simp: add.assoc)

lemma cumsum_from_replicate:
  "cumsum_from acc (replicate k c) = map (\<lambda>j. acc + (j + 1) * c) [0..<k]"
proof (induction k arbitrary: acc)
  case 0
  then show ?case by simp
next
  case (Suc k)
  have "cumsum_from acc (replicate (Suc k) c) = cumsum_from acc (replicate k c @ [c])"
    by (simp add: replicate_append_same)
  also have "\<dots> = map (\<lambda>j. acc + (j + 1) * c) [0..<k] @ [acc + k * c + c]"
    by (simp add: cumsum_from_append Suc.IH sum_list_replicate)
  finally show ?case by (simp add: add.assoc)
qed



lemma div_points_eq:
  assumes "0 < n"
  shows "div_points ntotal n = map (shard_start ntotal n) [0..<Suc n]"
proof (rule nth_equalityI)
  let ?q = "ntotal div n" and ?e = "ntotal mod n"
  have e: "?e < n" using assms by simp
  have dp: "div_points ntotal n =
      0 # (map (\<lambda>j. (j + 1) * (?q + 1)) [0..<?e] @
           map (\<lambda>j. ?e * (?q + 1) + (j + 1) * ?q) [0..<n - ?e])"
    by (simp add: div_points_def cumsum_def cumsum_from_append cumsum_from_replicate
        sum_list_replicate Let_def)
  show len: "length (div_points ntotal n) = length (map (shard_start ntotal n) [0..<Suc n])"
    using e by (simp add: dp)
  fix i assume "i < length (div_points ntotal n)"
  then have i: "i \<le> n" using len by simp
  show "div_points ntotal n ! i = map (shard_start ntotal n) [0..<Suc n] ! i"
  proof (cases i)
    case 0
    then show ?thesis by (simp add: dp shard_start_def del: upt_Suc)
  next
    case (Suc j)
    show ?thesis
    proof (cases "j < ?e")
      case True
      then show ?thesis using Suc i
        by (simp add: dp shard_start_def nth_append algebra_simps del: upt_Suc)
    next
      case False
      then have "j - ?e < n - ?e" using Suc i e by arith
      then show ?thesis using Suc i False
        by (simp add: dp shard_start_def nth_append algebra_simps del: upt_Suc)
    qed
  qed
qed

lemma shard_start_0: "shard_start ntotal n 0 = 0" by (simp add: shard_start_def)

lemma shard_start_n: "0 < n \<Longrightarrow> shard_start ntotal n n = ntotal"
proof -
  assume "0 < n"
  then have "ntotal mod n < n" by simp
  then have "min n (ntotal mod n) = ntotal mod n" by simp
  then show ?thesis by (simp add: shard_start_def)
qed

lemma shard_start_Suc: "shard_start ntotal n (Suc i) = shard_start ntotal n i + ntotal div n + (if i < ntotal mod n then 1 else 0)"
  by (simp add: shard_start_def min_def)

lemma shard_start_mono: "i \<le> j \<Longrightarrow> shard_start ntotal n i \<le> shard_start ntotal n j"
  by (simp add: shard_start_def add_mono min_def)


lemma slice_upt: "en \<le> n \<Longrightarrow> slice [0..<n] st en = [st..<en]"
proof (cases "st \<le> en")
  case True
  assume "en \<le> n"
  with True have "st + (en - st) \<le> n" by simp
  then have "take (en - st) [st..<n] = [st..<st + (en - st)]" by (rule take_upt)
  with True show ?thesis by (simp add: slice_def)
next
  case False
  then show ?thesis by (simp add: slice_def)
qed

lemma last_plus_one_ok:
  "(\<And>a. a \<in> set parts \<Longrightarrow> a \<noteq> []) \<Longrightarrow>
   last_plus_one parts = Inr (map (\<lambda>a. last a + 1) parts)"
  by (induction parts) auto

lemma last_plus_one_empty:
  "[] \<in> set parts \<Longrightarrow> last_plus_one parts = Inl IndexError"
  by (induction parts) (auto split: sum.splits)

lemma shard_start_strict:
  assumes "0 < n" "n \<le> ntotal" 
  shows "shard_start ntotal n i < shard_start ntotal n (Suc i)"
proof -
  have "0 < ntotal div n" using assms by (simp add: div_greater_zero_iff)
  then show ?thesis by (simp add: shard_start_Suc)
qed

lemma shard_start_le_total:
  assumes "0 < n" "i \<le> n"
  shows "shard_start ntotal n i \<le> ntotal"
  using shard_start_mono[OF assms(2), of ntotal n] shard_start_n[OF assms(1), of ntotal] by simp

lemma batch_splits_eq:
  "batch_splits num_items nw =
     (if nw \<le> 0 then Inl ValueError
      else if num_items < nat nw then Inl IndexError
      else Inr (map (shard_start num_items (nat nw)) [0..<Suc (nat nw)]))"
proof (cases "nw \<le> 0")
  case True
  then show ?thesis by (simp add: batch_splits_def array_split_def)
next
  case False
  define n where "n = nat nw"
  have n: "0 < n" using False by (simp add: n_def)
  let ?b = "shard_start num_items n"
  have parts: "array_split [0..<num_items] nw = Inr (map (\<lambda>i. [?b i..<?b (Suc i)]) [0..<n])"
    using False n shard_start_le_total[OF n, of _ num_items]
    by (simp add: array_split_def Let_def div_points_eq n_def[symmetric] slice_upt del: upt_Suc)
  show ?thesis
  proof (cases "num_items < n")
    case True
    have "?b num_items = num_items" "?b (Suc num_items) = num_items"
      using True by (simp_all add: shard_start_def)
    then have "[] \<in> set (map (\<lambda>i. [?b i..<?b (Suc i)]) [0..<n])"
      using True by (force simp: image_iff)
    then show ?thesis using False True
      by (simp add: batch_splits_def parts last_plus_one_empty n_def[symmetric])
  next
    case ge: False
    then have "n \<le> num_items" by simp
    note st = shard_start_strict[OF n this]
    have "last_plus_one (map (\<lambda>i. [?b i..<?b (Suc i)]) [0..<n])
        = Inr (map (\<lambda>a. last a + 1) (map (\<lambda>i. [?b i..<?b (Suc i)]) [0..<n]))"
    proof (rule last_plus_one_ok)
      fix a assume "a \<in> set (map (\<lambda>i. [?b i..<?b (Suc i)]) [0..<n])"
      then obtain i where "a = [?b i..<?b (Suc i)]" by auto
      with st[of i] show "a \<noteq> []" by simp
    qed
    also have "map (\<lambda>a. last a + 1) (map (\<lambda>i. [?b i..<?b (Suc i)]) [0..<n]) = map (\<lambda>i. ?b (Suc i)) [0..<n]"
    proof -
      have "last [?b i..<?b (Suc i)] + 1 = ?b (Suc i)" for i
        using st[of i] by (simp add: last_upt)
      then show ?thesis by simp
    qed
    finally have lp: "last_plus_one (map (\<lambda>i. [?b i..<?b (Suc i)]) [0..<n]) = Inr (map (\<lambda>i. ?b (Suc i)) [0..<n])" .
    have "map ?b [0..<Suc n] = 0 # map (\<lambda>i. ?b (Suc i)) [0..<n]"
      by (simp add: upt_conv_Cons map_Suc_upt[symmetric] shard_start_0 del: upt_Suc)
    then show ?thesis using False ge
      by (simp add: batch_splits_def parts lp n_def[symmetric] del: upt_Suc)
  qed
qed

lemma slice_append:
  assumes "a \<le> b" "b \<le> c"
  shows "slice xs a b @ slice xs b c = slice xs a c"
proof -
  obtain k where k: "b = a + k" using assms(1) by (auto simp: le_iff_add)
  obtain m where m: "c = b + m" using assms(2) by (auto simp: le_iff_add)
  have "take (k + m) (drop a xs) = take k (drop a xs) @ take m (drop k (drop a xs))"
    by (rule take_add)
  then show ?thesis by (simp add: slice_def k m add.commute)
qed

lemma concat_slices:
  "(\<And>i. i < n \<Longrightarrow> d i \<le> d (Suc i)) \<Longrightarrow>
   concat (map (\<lambda>i. slice xs (d i) (d (Suc i))) [0..<n]) = slice xs (d 0) (d n)"
proof (induction n)
  case 0
  then show ?case by (simp add: slice_def)
next
  case (Suc n)
  have mono: "d 0 \<le> d n" using Suc.prems
    by (induction n) (auto intro: order_trans)
  have step: "d n \<le> d (Suc n)" using Suc.prems by simp
  have "slice xs (d 0) (d n) @ slice xs (d n) (d (Suc n)) = slice xs (d 0) (d (Suc n))"
    using mono step by (rule slice_append)
  then show ?case using Suc by simp
qed


lemma nth_map_upt0: "i < n \<Longrightarrow> map f [0..<n] ! i = f i"
  by simp

lemma batch_shards_eq:
  assumes "0 < nw" "nat nw \<le> length items"
  shows "batch_shards items nw =
     Inr (map (\<lambda>i. slice items (shard_start (length items) (nat nw) i)
                              (shard_start (length items) (nat nw) (Suc i))) [0..<nat nw])"
proof -
  let ?b = "shard_start (length items) (nat nw)"
  have "slice items (map ?b [0..<Suc (nat nw)] ! i) (map ?b [0..<Suc (nat nw)] ! (i + 1))
      = slice items (?b i) (?b (Suc i))" if "i < nat nw" for i
    using that by (simp del: upt_Suc)
  then show ?thesis using assms
    by (simp add: batch_shards_def batch_splits_eq del: upt_Suc)
qed

lemma slice_whole: "slice xs 0 (length xs) = xs"
  by (simp add: slice_def)

lemma length_slice: "en \<le> length xs \<Longrightarrow> length (slice xs st en) = en - st"
  by (simp add: slice_def)


section \<open>The static mode when nothing raises\<close>

lemma await_ticks_eq:
  "await_ticks n avail cbs = (if n \<le> avail then (True, cbs + n) else (False, cbs + avail))"
  by (induction n avail cbs rule: await_ticks.induct) auto

lemma collect_all:
  "collect (map Inr bundles) acc = Some (acc @ concat bundles)"
  by (induction bundles arbitrary: acc) auto

lemma collect_dead:
  "Inl e \<in> set qs \<Longrightarrow> collect qs acc = None"
  by (induction qs acc rule: collect.induct) auto

lemma batch_worker_args:
  "worker_args v args r = Some aa \<Longrightarrow>
   batch_worker tick r (worker_func v) (worker_init v) (init_kwargs v) items args =
     item_loop (worker_func v) r aa tick items (init_events v r, 0, [])"
  by (auto simp: worker_args_def batch_worker_def init_events_def split: sum.splits prod.splits)

lemma batch_worker_init_fails:
  "worker_args v args r = None \<Longrightarrow>
   \<exists>e. batch_worker tick r (worker_func v) (worker_init v) (init_kwargs v) items args =
     (init_events v r, 0, Inl e)"
  by (auto simp: worker_args_def batch_worker_def init_events_def split: sum.splits prod.splits)

lemma batch_worker_ok:
  assumes "worker_args v args r = Some aa"
    and "\<And>x. x \<in> set items \<Longrightarrow> worker_func v x aa = Inr (g x)"
  shows "batch_worker tick r (worker_func v) (worker_init v) (init_kwargs v) items args =
     (init_events v r @ map (\<lambda>x. FuncCall r x aa) items,
      (if tick then length items else 0), Inr (map g items))"
  using item_loop_all_ok[of items "worker_func v" aa g r tick "init_events v r" 0 "[]"] assms
  by (simp add: batch_worker_args)

lemma uniform_iff:
  "uniform v args w xs g \<longleftrightarrow>
     (\<forall>r < w. \<exists>aa. worker_args v args r = Some aa \<and> (\<forall>x \<in> set xs. worker_func v x aa = Inr (g x)))"
proof -
  have "(case worker_args v args r of None \<Rightarrow> False
          | Some aa \<Rightarrow> list_all (\<lambda>x. worker_func v x aa = Inr (g x)) xs)
      \<longleftrightarrow> (\<exists>aa. worker_args v args r = Some aa \<and> (\<forall>x \<in> set xs. worker_func v x aa = Inr (g x)))"
    for r
    by (cases "worker_args v args r") (simp_all add: list_all_iff)
  then show ?thesis by (auto simp: uniform_def list_all_iff)
qed

lemma sum_list_lengths_concat: "sum_list (map length xss) = length (concat xss)"
  by (induction xss) auto

lemma process_batches_ok:
  assumes nw: "0 < num_workers v" and le: "nat (num_workers v) \<le> length items"
    and u: "uniform v args (nat (num_workers v)) items g"
  shows "outcome (process_batches v items args) = Return (map g items)"
    and "callbacks (process_batches v items args) = (if callback_func v = None then 0 else length items)"
    and "spawned (process_batches v items args) = nat (num_workers v)"
proof -
  define n where "n = nat (num_workers v)"
  let ?N = "length items"
  let ?b = "shard_start ?N n"
  let ?tick = "callback_func v \<noteq> None"
  define shard where "shard i = slice items (?b i) (?b (Suc i))" for i
  define aa where "aa r = the (worker_args v args r)" for r
  have n: "0 < n" using nw by (simp add: n_def)
  have sp: "batch_splits ?N (num_workers v) = Inr (map ?b [0..<Suc n])"
    using nw le by (simp add: batch_splits_eq n_def del: upt_Suc)
  have cat: "concat (map shard [0..<n]) = items"
  proof -
    have "concat (map (\<lambda>i. slice items (?b i) (?b (Suc i))) [0..<n]) = slice items (?b 0) (?b n)"
      by (rule concat_slices) (simp add: shard_start_mono)
    moreover have "shard = (\<lambda>i. slice items (?b i) (?b (Suc i)))"
      by (rule ext) (simp add: shard_def)
    ultimately show ?thesis using n by (simp add: shard_start_0 shard_start_n slice_whole)
  qed
  have sub: "set (shard i) \<subseteq> set items" for i
    by (auto simp: shard_def slice_def dest: in_set_takeD in_set_dropD)
  have w: "batch_worker ?tick i (worker_func v) (worker_init v) (init_kwargs v)
             (slice items (map ?b [0..<Suc n] ! i) (map ?b [0..<Suc n] ! (i + 1))) args
         = (init_events v i @ map (\<lambda>x. FuncCall i x (aa i)) (shard i),
            (if ?tick then length (shard i) else 0), Inr (map g (shard i)))"
    if "i < n" for i
  proof -
    from u that obtain a where a: "worker_args v args i = Some a"
      "\<forall>x \<in> set items. worker_func v x a = Inr (g x)"
      by (auto simp: uniform_iff n_def)
    have "slice items (map ?b [0..<Suc n] ! i) (map ?b [0..<Suc n] ! (i + 1)) = shard i"
      using that by (simp add: shard_def del: upt_Suc)
    moreover have "batch_worker ?tick i (worker_func v) (worker_init v) (init_kwargs v) (shard i) args
       = (init_events v i @ map (\<lambda>x. FuncCall i x a) (shard i),
            (if ?tick then length (shard i) else 0), Inr (map g (shard i)))"
      by (rule batch_worker_ok[OF a(1)]) (use a(2) sub in auto)
    ultimately show ?thesis using a(1) by (simp add: aa_def)
  qed
  have ws: "batch_workers v items args (map ?b [0..<Suc n]) = map (\<lambda>i. (init_events v i @ map (\<lambda>x. FuncCall i x (aa i)) (shard i),
            (if ?tick then length (shard i) else 0), Inr (map g (shard i)))) [0..<n]"
    unfolding batch_workers_def n_def[symmetric] using w by simp
  define ws where "ws = batch_workers v items args (map ?b [0..<Suc n])"
  note ws = ws[folded ws_def]
  have ticks: "?tick \<Longrightarrow> sum_list (map (\<lambda>w. fst (snd w)) ws) = ?N"
  proof -
    assume t: ?tick
    have "sum_list (map (\<lambda>w. fst (snd w)) ws) = sum_list (map length (map shard [0..<n]))"
      using t by (simp add: ws comp_def)
    also have "\<dots> = length (concat (map shard [0..<n]))" by (rule sum_list_lengths_concat)
    finally show ?thesis by (simp add: cat)
  qed
  have coll: "collect (map (\<lambda>w. snd (snd w)) ws) [] = Some (map g items)"
  proof -
    have "map (\<lambda>w. snd (snd w)) ws = map Inr (map (\<lambda>i. map g (shard i)) [0..<n])"
      by (simp add: ws comp_def)
    then have "collect (map (\<lambda>w. snd (snd w)) ws) [] = Some ([] @ concat (map (\<lambda>i. map g (shard i)) [0..<n]))"
      by (simp only: collect_all)
    also have "[] @ concat (map (\<lambda>i. map g (shard i)) [0..<n]) = map g (concat (map shard [0..<n]))"
      by (simp add: map_concat comp_def)
    finally show ?thesis unfolding cat .
  qed
  have len: "length ws = n" by (simp add: ws)
  have pb: "process_batches v items args = batch_collect v ?N ws"
    by (simp add: process_batches_def sp ws_def del: upt_Suc)
  show "outcome (process_batches v items args) = Return (map g items)"
    by (cases ?tick) (simp_all add: pb batch_collect_def Let_def coll ticks await_ticks_eq)
  show "callbacks (process_batches v items args) = (if callback_func v = None then 0 else length items)"
    by (cases ?tick) (simp_all add: pb batch_collect_def Let_def coll ticks await_ticks_eq)
  show "spawned (process_batches v items args) = nat (num_workers v)"
    by (cases ?tick) (simp_all add: pb batch_collect_def Let_def coll ticks await_ticks_eq len n_def)
qed


text \<open>The workers of \<^verbatim>\<open>_process_batches\<close> are run on exactly the shards of \<open>batch_shards\<close>.\<close>

lemma batch_workers_shards:
  assumes "batch_shards items (num_workers v) = Inr shards"
  shows "\<exists>sp. batch_splits (length items) (num_workers v) = Inr sp \<and>
           batch_workers v items args sp =
             map (\<lambda>i. batch_worker (callback_func v \<noteq> None) i (worker_func v) (worker_init v)
                        (init_kwargs v) (shards ! i) args)
                 [0..<nat (num_workers v)]"
proof -
  from assms obtain sp where sp: "batch_splits (length items) (num_workers v) = Inr sp"
    and sh: "shards = map (\<lambda>i. slice items (sp ! i) (sp ! (i + 1))) [0..<nat (num_workers v)]"
    by (auto simp: batch_shards_def split: sum.splits)
  have "batch_workers v items args sp =
             map (\<lambda>i. batch_worker (callback_func v \<noteq> None) i (worker_func v) (worker_init v)
                        (init_kwargs v) (shards ! i) args)
                 [0..<nat (num_workers v)]"
    unfolding batch_workers_def sh by (rule map_cong) simp_all
  with sp show ?thesis by blast
qed


section \<open>The sequential mode, and what \<^verbatim>\<open>process\<close> never looks at\<close>

lemma process_sequential_ok:
  assumes "worker_args v args 0 = Some aa"
    and "\<And>x. x \<in> set xs \<Longrightarrow> worker_func v x aa = Inr (g x)"
  shows "process_sequential v xs args =
     \<lparr> outcome = Return (map g xs), callbacks = 0, spawned = 0,
       trace = init_events v 0 @ map (\<lambda>x. FuncCall 0 x aa) xs, after = v \<rparr>"
proof -
  obtain tr ini where i: "init_if_needed (worker_init v) 0 (init_kwargs v) = (tr, Inr ini)"
    "aa = combine_args args ini"
    using assms(1) by (cases "init_if_needed (worker_init v) 0 (init_kwargs v)")
      (auto simp: worker_args_def split: sum.splits)
  have "item_loop (worker_func v) 0 aa False xs (tr, 0, []) =
      (tr @ map (\<lambda>x. FuncCall 0 x aa) xs, 0, Inr ([] @ map g xs))"
    using item_loop_all_ok[of xs "worker_func v" aa g 0 False tr 0 "[]"] assms(2) by simp
  then show ?thesis using i by (simp add: process_sequential_def init_events_def)
qed

lemma process_sequential_fails:
  assumes "worker_args v args 0 = Some aa"
    and "\<And>y. y \<in> set pre \<Longrightarrow> worker_func v y aa = Inr (g y)"
    and "worker_func v x aa = Inl e"
  shows "process_sequential v (pre @ x # post) args =
     \<lparr> outcome = Raise e, callbacks = 0, spawned = 0,
       trace = init_events v 0 @ map (\<lambda>x. FuncCall 0 x aa) (pre @ [x]), after = v \<rparr>"
proof -
  obtain tr ini where i: "init_if_needed (worker_init v) 0 (init_kwargs v) = (tr, Inr ini)"
    "aa = combine_args args ini"
    using assms(1) by (cases "init_if_needed (worker_init v) 0 (init_kwargs v)")
      (auto simp: worker_args_def split: sum.splits)
  have "item_loop (worker_func v) 0 aa False (pre @ x # post) (tr, 0, []) =
      (tr @ map (\<lambda>x. FuncCall 0 x aa) (pre @ [x]), 0, Inl e)"
    using item_loop_fails[of pre "worker_func v" aa g x e 0 False post tr 0 "[]"] assms(2,3) by simp
  then show ?thesis using i by (simp add: process_sequential_def init_events_def)
qed

lemma step_shutdown_fn [simp]: "step (v\<lparr> shutdown_fn := sd \<rparr>) args a s = step v args a s"
  by (cases a) (simp_all add: main_step_def split: pc.splits nat.splits)

lemma exec_shutdown_fn [simp]: "exec (v\<lparr> shutdown_fn := sd \<rparr>) args sched s = exec v args sched s"
  by (induction sched arbitrary: s) (simp_all split: option.splits)

lemma stuck_shutdown_fn [simp]: "stuck (v\<lparr> shutdown_fn := sd \<rparr>) args s = stuck v args s"
  by (simp add: stuck_def)

lemma consumers_init_shutdown_fn [simp]:
  "consumers_init (v\<lparr> shutdown_fn := sd \<rparr>) xs = consumers_init v xs"
  by (simp add: consumers_init_def)

lemma process_consumers_shutdown_fn:
  "map_option outcome (process_consumers (v\<lparr> shutdown_fn := sd \<rparr>) xs args sched) =
   map_option outcome (process_consumers v xs args sched)"
  by (simp add: process_consumers_def Let_def split: option.splits)

lemma process_sequential_shutdown_fn:
  "outcome (process_sequential (v\<lparr> shutdown_fn := sd \<rparr>) xs args) =
   outcome (process_sequential v xs args)"
  by (simp add: process_sequential_def split: prod.splits sum.splits)

lemma process_batches_shutdown_fn:
  "outcome (process_batches (v\<lparr> shutdown_fn := sd \<rparr>) xs args) =
   outcome (process_batches v xs args)"
  by (simp add: process_batches_def batch_collect_def batch_workers_def Let_def
      split: prod.splits sum.splits option.splits)

lemma outcome_release [simp]: "outcome (release r) = outcome r"
  by (simp add: release_def split: outcome.splits)

lemma spawned_release [simp]: "spawned (release r) = spawned r"
  by (simp add: release_def split: outcome.splits)

lemma callbacks_release [simp]: "callbacks (release r) = callbacks r"
  by (simp add: release_def split: outcome.splits)

lemma trace_release [simp]: "trace (release r) = trace r"
  by (simp add: release_def split: outcome.splits)

lemma process_shutdown_fn:
  "map_option outcome (process (v\<lparr> shutdown_fn := sd \<rparr>) its args sched) =
   map_option outcome (process v its args sched)"
  using process_consumers_shutdown_fn[where v=v and sd=sd and args=args and sched=sched]
  by (cases its)
     (simp_all add: process_def process_sequential_shutdown_fn process_batches_shutdown_fn
        option.map_comp comp_def)

lemma process_consumers_negative:
  assumes "num_workers v < 0"
  shows "process_consumers v xs args sched =
     (if sched = [Main]
      then Some \<lparr> outcome = Hang, callbacks = 0, spawned = 0, trace = [],
                  after = v\<lparr> shutdown_fn := Some (Shutdown_consumers 0) \<rparr> \<rparr>
      else None)"
proof -
  let ?s0 = "consumers_init v xs"
  let ?s1 = "?s0\<lparr> pc := Await \<rparr>"
  have s0: "workers ?s0 = []" "pc ?s0 = Prime 0" "pull_queue ?s0 = []"
    using assms by (simp_all add: consumers_init_def)
  have m0: "main_step v ?s0 = Some ?s1" using s0 by (simp add: main_step_def)
  have w0: "step v args (Worker r) ?s0 = None" for r using s0 by (simp add: worker_step_def)
  have m1: "main_step v ?s1 = None" using s0 by (simp add: main_step_def receive_def)
  have w1: "step v args (Worker r) ?s1 = None" for r using s0 by (simp add: worker_step_def)
  have st1: "step v args a ?s1 = None" for a using m1 w1 by (cases a) simp_all
  show ?thesis
  proof (cases sched)
    case Nil
    then show ?thesis using s0 m0 by (simp add: process_consumers_def stuck_def)
  next
    case (Cons a rest)
    show ?thesis
    proof (cases a)
      case Main
      show ?thesis
      proof (cases rest)
        case Nil
        have "stuck v args ?s1" using m1 s0 by (simp add: stuck_def)
        then show ?thesis using Cons Main Nil m0 assms
          by (simp add: process_consumers_def consumers_init_def)
      next
        case (Cons b rest')
        then show ?thesis using \<open>sched = a # rest\<close> Main m0 st1[of b]
          by (simp add: process_consumers_def)
      qed
    next
      case (Worker r)
      then show ?thesis using Cons w0[of r] by (simp add: process_consumers_def)
    qed
  qed
qed

lemma list_neq_singleton_tuple: "xs \<noteq> [VTuple xs]"
proof
  assume "xs = [VTuple xs]"
  then have "size_list size xs = size_list size [VTuple xs]" by simp
  then show False by simp
qed

lemma process_sequential_pending:
  "outcome (process_sequential (v\<lparr> shutdown_fn := sd \<rparr>) xs args) = outcome (process_sequential v xs args)"
  "callbacks (process_sequential (v\<lparr> shutdown_fn := sd \<rparr>) xs args) = callbacks (process_sequential v xs args)"
  "spawned (process_sequential (v\<lparr> shutdown_fn := sd \<rparr>) xs args) = spawned (process_sequential v xs args)"
  "trace (process_sequential (v\<lparr> shutdown_fn := sd \<rparr>) xs args) = trace (process_sequential v xs args)"
  by (simp_all add: process_sequential_def split: prod.splits sum.splits)

lemma process_batches_pending:
  "outcome (process_batches (v\<lparr> shutdown_fn := sd \<rparr>) xs args) = outcome (process_batches v xs args)"
  "callbacks (process_batches (v\<lparr> shutdown_fn := sd \<rparr>) xs args) = callbacks (process_batches v xs args)"
  "spawned (process_batches (v\<lparr> shutdown_fn := sd \<rparr>) xs args) = spawned (process_batches v xs args)"
  "trace (process_batches (v\<lparr> shutdown_fn := sd \<rparr>) xs args) = trace (process_batches v xs args)"
  by (simp_all add: process_batches_def batch_collect_def batch_workers_def Let_def
      split: prod.splits sum.splits option.splits)

lemma process_consumers_pending:
  "map_option (\<lambda>r. (outcome r, callbacks r, spawned r, trace r))
     (process_consumers (v\<lparr> shutdown_fn := sd \<rparr>) xs args sched) =
   map_option (\<lambda>r. (outcome r, callbacks r, spawned r, trace r))
     (process_consumers v xs args sched)"
  by (simp add: process_consumers_def Let_def split: option.splits)

lemma process_pending:
  "map_option (\<lambda>r. (outcome r, callbacks r, spawned r, trace r))
     (process (v\<lparr> shutdown_fn := sd \<rparr>) its args sched) =
   map_option (\<lambda>r. (outcome r, callbacks r, spawned r, trace r)) (process v its args sched)"
proof (cases "num_workers v = 0")
  case True
  then show ?thesis by (simp add: process_def process_sequential_pending)
next
  case False
  show ?thesis
  proof (cases its)
    case (Indexable xs)
    with False show ?thesis by (simp add: process_def process_batches_pending)
  next
    case (Iterable xs)
    have "map_option (\<lambda>r. (outcome r, callbacks r, spawned r, trace r)) (map_option release p) =
          map_option (\<lambda>r. (outcome r, callbacks r, spawned r, trace r)) p" for p
      by (cases p) simp_all
    with False Iterable process_consumers_pending[where v=v and sd=sd and xs=xs and args=args and sched=sched] show ?thesis
      by (simp add: process_def)
  qed
qed

section \<open>Claims about the sequential and the static mode\<close>

text \<open>
  C1 says that for every input of length N and every worker count W \<ge> 0 \<^verbatim>\<open>process\<close>
  returns the N results of the transform in input order. The static mode does not: for
  an indexable input with fewer items than workers, \<^verbatim>\<open>np.array_split\<close> yields an empty
  array, \<^verbatim>\<open>a[-1]\<close> raises IndexError and \<^verbatim>\<open>process\<close> lets it escape before any worker
  is started, where the sequential mode returns the two results.
\<close>

theorem fewer_items_than_workers_raises:
  "map_option (\<lambda>r. (outcome r, spawned r))
     (process (Vectorizer 8 square None None 3 []) (Indexable [VInt 1, VInt 2]) [] []) =
     Some (Raise IndexError, 0) \<and>
   outcome (process_sequential (Vectorizer 8 square None None 3 []) [VInt 1, VInt 2] []) =
     Return [VInt 1, VInt 4]"
  by (simp add: process_def Vectorizer_def process_batches_def batch_splits_eq release_def
      process_sequential_def init_if_needed_def)

text \<open>
  C2 says that a configured callback is invoked once per item in every mode, the
  sequential one included. The sequential branch of \<^verbatim>\<open>process\<close> never calls it: three
  items are processed and the callback count is 0.
\<close>

theorem sequential_skips_callback:
  "map_option (\<lambda>r. (outcome r, callbacks r))
     (process (Vectorizer 8 square None (Some ()) 0 []) (Indexable [VInt 1, VInt 2, VInt 3]) [] []) =
   Some (Return [VInt 1, VInt 4, VInt 9], 0)"
  by (simp add: process_def Vectorizer_def process_sequential_def init_if_needed_def)

text \<open>
  C3 as stated fails twice: the shards that absorb the remainder are the first ones,
  not the last ones (ten items on three workers are cut 4, 3, 3), and with fewer items
  than workers no shard is handed out at all, the split raises IndexError.
\<close>

theorem static_partition_counterexample:
  "batch_shards [VInt 0, VInt 1, VInt 2, VInt 3, VInt 4, VInt 5, VInt 6, VInt 7, VInt 8, VInt 9] 3 =
     Inr [[VInt 0, VInt 1, VInt 2, VInt 3], [VInt 4, VInt 5, VInt 6], [VInt 7, VInt 8, VInt 9]] \<and>
   batch_shards [VInt 0, VInt 1] 3 = Inl IndexError"
  by (simp add: batch_shards_def batch_splits_eq shard_start_def slice_def upt_conv_Cons)

text \<open>
  C3, amended: in static mode with an indexable input of length N and W workers,
  1 \<le> W \<le> N, the items are cut into W contiguous shards in input order, none of them
  empty, the first N mod W of size N div W + 1 and the others of size N div W.
\<close>

theorem static_partition:
  assumes "0 < nw" and "nat nw \<le> length items"
  shows "\<exists>shards. batch_shards items nw = Inr shards \<and>
           length shards = nat nw \<and>
           concat shards = items \<and>
           (\<forall>i < nat nw. length (shards ! i) =
              length items div nat nw + (if i < length items mod nat nw then 1 else 0)) \<and>
           (\<forall>i < nat nw. shards ! i \<noteq> [])"
proof -
  define n where "n = nat nw"
  let ?N = "length items"
  let ?b = "shard_start ?N n"
  let ?shards = "map (\<lambda>i. slice items (?b i) (?b (Suc i))) [0..<n]"
  have n: "0 < n" using assms(1) by (simp add: n_def)
  have nN: "n \<le> ?N" using assms(2) by (simp add: n_def)
  have eq: "batch_shards items nw = Inr ?shards"
    using batch_shards_eq[OF assms] by (simp add: n_def)
  have cat: "concat ?shards = items"
  proof -
    have "concat ?shards = slice items (?b 0) (?b n)"
      by (rule concat_slices) (simp add: shard_start_mono)
    then show ?thesis using n by (simp add: shard_start_0 shard_start_n slice_whole)
  qed
  have len: "length (?shards ! i) = ?N div n + (if i < ?N mod n then 1 else 0)" if "i < n" for i
  proof -
    have "?b (Suc i) \<le> ?N" using that n by (intro shard_start_le_total) auto
    then have "length (slice items (?b i) (?b (Suc i))) = ?b (Suc i) - ?b i"
      by (rule length_slice)
    then show ?thesis using that by (simp add: shard_start_Suc)
  qed
  have ne: "?shards ! i \<noteq> []" if "i < n" for i
  proof -
    have "0 < ?N div n" using n nN by (simp add: div_greater_zero_iff)
    with len[OF that] have "0 < length (?shards ! i)" by simp
    then show ?thesis by blast
  qed
  show ?thesis using eq cat len ne by (auto simp: n_def)
qed


theorem static_partition_witness:
  "(0::int) < 3 \<and>
   nat 3 \<le> length [VInt 0, VInt 1, VInt 2, VInt 3, VInt 4, VInt 5, VInt 6] \<and>
   (\<exists>shards. batch_shards [VInt 0, VInt 1, VInt 2, VInt 3, VInt 4, VInt 5, VInt 6] 3 = Inr shards \<and>
      length shards = nat 3 \<and>
      concat shards = [VInt 0, VInt 1, VInt 2, VInt 3, VInt 4, VInt 5, VInt 6] \<and>
      (\<forall>i < nat 3. length (shards ! i) =
         length [VInt 0, VInt 1, VInt 2, VInt 3, VInt 4, VInt 5, VInt 6] div nat 3 +
         (if i < length [VInt 0, VInt 1, VInt 2, VInt 3, VInt 4, VInt 5, VInt 6] mod nat 3
          then 1 else 0)) \<and>
      (\<forall>i < nat 3. shards ! i \<noteq> []))"
proof -
  have h1: "(0::int) < 3" by simp
  have h2: "nat 3 \<le> length [VInt 0, VInt 1, VInt 2, VInt 3, VInt 4, VInt 5, VInt 6]" by simp
  show ?thesis using h1 h2 static_partition [OF h1 h2] by blast
qed

text \<open>
  C4 as stated fails in both halves: nothing in \<^verbatim>\<open>__init__\<close> or \<^verbatim>\<open>process\<close> checks the worker
  count or a pending shutdown. With \<^verbatim>\<open>num_workers = -2\<close> and an input that can only be
  iterated, no error is raised: no worker is spawned, the priming loop is empty and the
  call blocks in its first \<^verbatim>\<open>pull_queue.get()\<close>. And on a Vectorizer whose
  \<^verbatim>\<open>_shutdown_fn\<close> is still set (an earlier call was interrupted between the spawn loop and
  the shutdown), a call with two workers does not fail: it spawns two new workers and
  returns the results.
\<close>

theorem negative_worker_count_counterexample:
  "map_option (\<lambda>r. (outcome r, spawned r))
     (process (Vectorizer 8 square None None (-2) []) (Iterable [VInt 1]) [] [Main]) =
     Some (Hang, 0) \<and>
   map_option (\<lambda>r. (outcome r, spawned r))
     (process ((Vectorizer 8 square None None 2 [])\<lparr> shutdown_fn := Some (Shutdown_batches 2) \<rparr>)
        (Indexable [VInt 1, VInt 2]) [] []) =
     Some (Return [VInt 1, VInt 4], 2)"
proof -
  have a: "map_option (\<lambda>r. (outcome r, spawned r))
     (process (Vectorizer 8 square None None (-2) []) (Iterable [VInt 1]) [] [Main]) =
     Some (Hang, 0)"
    by (simp add: process_def Vectorizer_def process_consumers_negative)
  have b: "map_option (\<lambda>r. (outcome r, spawned r))
     (process ((Vectorizer 8 square None None 2 [])\<lparr> shutdown_fn := Some (Shutdown_batches 2) \<rparr>)
        (Indexable [VInt 1, VInt 2]) [] []) =
     Some (Return [VInt 1, VInt 4], 2)"
    by (simp add: process_def Vectorizer_def process_batches_def batch_splits_eq shard_start_def
        batch_workers_def batch_worker_def init_if_needed_def slice_def batch_collect_def
        release_def numeral_2_eq_2)
  from a b show ?thesis by (intro conjI)
qed

text \<open>
  C4, amended: with a negative worker count (other than the -1 replaced by the core
  count at construction), \<^verbatim>\<open>process\<close> on an indexable input fails, with the ValueError of
  the split, before any worker is spawned and leaves the object unchanged; and \<^verbatim>\<open>process\<close>
  never checks whether the workers of a previous call have been released: for every worker
  count, input and schedule, a pending \<^verbatim>\<open>_shutdown_fn\<close> changes neither the outcome nor the
  callbacks made, the workers spawned or the calls of the user's functions.
\<close>

theorem negative_worker_count_unchecked:
  "(num_workers v < 0 \<longrightarrow>
      (\<exists>r. process v (Indexable xs) args sched = Some r \<and> outcome r = Raise ValueError \<and>
           spawned r = 0 \<and> after r = v)) \<and>
   map_option (\<lambda>r. (outcome r, callbacks r, spawned r, trace r))
     (process (v\<lparr> shutdown_fn := Some sd \<rparr>) its args sched') =
   map_option (\<lambda>r. (outcome r, callbacks r, spawned r, trace r)) (process v its args sched')"
proof (intro conjI impI)
  assume neg: "num_workers v < 0"
  then have ne: "num_workers v \<noteq> 0" by simp
  have "process_batches v xs args =
        \<lparr> outcome = Raise ValueError, callbacks = 0, spawned = 0, trace = [], after = v \<rparr>"
    using neg by (simp add: process_batches_def batch_splits_eq)
  then show "\<exists>r. process v (Indexable xs) args sched = Some r \<and> outcome r = Raise ValueError \<and>
              spawned r = 0 \<and> after r = v"
    using ne by (simp add: process_def release_def)
next
  show "map_option (\<lambda>r. (outcome r, callbacks r, spawned r, trace r))
     (process (v\<lparr> shutdown_fn := Some sd \<rparr>) its args sched') =
   map_option (\<lambda>r. (outcome r, callbacks r, spawned r, trace r)) (process v its args sched')"
    by (rule process_pending)
qed

theorem negative_worker_count_unchecked_witness:
  "num_workers (Vectorizer 8 square None None (-2) []) < 0 \<and>
   (\<exists>r. process (Vectorizer 8 square None None (-2) []) (Indexable [VInt 1, VInt 2]) [] [] = Some r \<and>
        outcome r = Raise ValueError \<and> spawned r = 0 \<and>
        after r = Vectorizer 8 square None None (-2) []) \<and>
   map_option (\<lambda>r. (outcome r, callbacks r, spawned r, trace r))
     (process ((Vectorizer 8 square None None 0 [])\<lparr> shutdown_fn := Some (Shutdown_consumers 2) \<rparr>)
        (Indexable [VInt 1, VInt 2]) [] []) =
     Some (Return [VInt 1, VInt 4], 0, 0, [FuncCall 0 (VInt 1) [], FuncCall 0 (VInt 2) []])"
proof -
  have h: "num_workers (Vectorizer 8 square None None (-2) []) < 0"
    by (simp add: Vectorizer_def)
  have a: "\<exists>r. process (Vectorizer 8 square None None (-2) []) (Indexable [VInt 1, VInt 2]) [] [] = Some r \<and>
        outcome r = Raise ValueError \<and> spawned r = 0 \<and>
        after r = Vectorizer 8 square None None (-2) []"
    using h negative_worker_count_unchecked
      [of "Vectorizer 8 square None None (-2) []" "[VInt 1, VInt 2]" "[]" "[]"] by blast
  have "map_option (\<lambda>r. (outcome r, callbacks r, spawned r, trace r))
     (process (Vectorizer 8 square None None 0 []) (Indexable [VInt 1, VInt 2]) [] []) =
     Some (Return [VInt 1, VInt 4], 0, 0, [FuncCall 0 (VInt 1) [], FuncCall 0 (VInt 2) []])"
    by (simp add: process_def Vectorizer_def process_sequential_def init_if_needed_def)
  with negative_worker_count_unchecked
      [where v = "Vectorizer 8 square None None 0 []" and sd = "Shutdown_consumers 2"
         and its = "Indexable [VInt 1, VInt 2]" and args = "[]" and sched' = "[]"]
  have b: "map_option (\<lambda>r. (outcome r, callbacks r, spawned r, trace r))
     (process ((Vectorizer 8 square None None 0 [])\<lparr> shutdown_fn := Some (Shutdown_consumers 2) \<rparr>)
        (Indexable [VInt 1, VInt 2]) [] []) =
     Some (Return [VInt 1, VInt 4], 0, 0, [FuncCall 0 (VInt 1) [], FuncCall 0 (VInt 2) []])"
    by simp
  from h a b show ?thesis by (intro conjI)
qed

text \<open>
  C5 says that when the transform raises, \<^verbatim>\<open>process\<close> fails, the workers are terminated
  and the Vectorizer can be used again. In the parallel modes it does not: the
  exception kills the worker process, nothing is sent to the orchestrating thread, and
  the call neither fails nor returns; it stays blocked in a \<^verbatim>\<open>get\<close>, with the shutdown
  function of the run still pending. Here one worker and one item on which the transform
  raises, once as a list (static mode) and once as an iterator (dynamic mode).
\<close>

theorem parallel_failure_hangs:
  "map_option (\<lambda>r. (outcome r, shutdown_fn (after r)))
     (process (Vectorizer 8 square None None 1 []) (Indexable [VStr ''x'']) [] []) =
     Some (Hang, Some (Shutdown_batches 1)) \<and>
   map_option (\<lambda>r. (outcome r, shutdown_fn (after r)))
     (process (Vectorizer 8 square None None 1 []) (Iterable [VStr ''x'']) []
        [Main, Main, Worker 0, Worker 0, Worker 0]) =
     Some (Hang, Some (Shutdown_consumers 1))"
proof -
  let ?v = "Vectorizer 8 square None None 1 []"
  have a: "map_option (\<lambda>r. (outcome r, shutdown_fn (after r)))
     (process ?v (Indexable [VStr ''x'']) [] []) = Some (Hang, Some (Shutdown_batches 1))"
    by (simp add: process_def Vectorizer_def process_batches_def batch_splits_eq shard_start_def
      batch_workers_def batch_worker_def init_if_needed_def slice_def batch_collect_def release_def)
  have d: "exec ?v [] [Main, Main, Worker 0, Worker 0, Worker 0] (consumers_init ?v [VStr ''x'']) =
        Some \<lparr> workers = [Dead], push_queue = [], pull_queue = [],
               iterator = [], index = 1, expect = 1, result = [], cb_calls = 0, pc = Await,
               events = [FuncCall 0 (VStr ''x'') []] \<rparr>"
    by (simp add: Vectorizer_def consumers_init_def main_step_def dispatch_def receive_def
        worker_step_def init_if_needed_def)
  have st: "stuck ?v [] \<lparr> workers = [Dead], push_queue = [], pull_queue = [],
               iterator = [], index = 1, expect = 1, result = [], cb_calls = 0, pc = Await,
               events = [FuncCall 0 (VStr ''x'') []] \<rparr>"
    by (simp add: stuck_def main_step_def receive_def worker_step_def)
  have b: "map_option (\<lambda>r. (outcome r, shutdown_fn (after r)))
     (process ?v (Iterable [VStr ''x'']) [] [Main, Main, Worker 0, Worker 0, Worker 0]) =
     Some (Hang, Some (Shutdown_consumers 1))"
    using d st by (simp add: process_def process_consumers_def Let_def release_def Vectorizer_def)
  from a b show ?thesis by (intro conjI)
qed

text \<open>
  The sequential branch, on such an input, does fail as described: the exception of the
  first item on which the transform raises escapes, no partial result is returned, no
  worker exists and the Vectorizer is unchanged, so that a later call on items on which
  the transform returns gives their results in order.
\<close>

theorem sequential_failure_is_clean:
  assumes "num_workers v = 0"
    and "worker_args v args 0 = Some aa"
    and "elems its = pre @ x # post"
    and "\<forall>y \<in> set pre. \<exists>z. worker_func v y aa = Inr z"
    and "worker_func v x aa = Inl e"
  shows "\<exists>r. process v its args sched = Some r \<and> outcome r = Raise e \<and> spawned r = 0 \<and>
             after r = v \<and>
             (\<forall>its' sched'. (\<forall>y \<in> set (elems its'). worker_func v y aa = Inr (g y)) \<longrightarrow>
                map_option outcome (process (after r) its' args sched') =
                  Some (Return (map g (elems its'))))"
proof -
  define h where "h y = projr (worker_func v y aa)" for y
  have pre: "worker_func v y aa = Inr (h y)" if "y \<in> set pre" for y
    using assms(4) that by (auto simp: h_def)
  have r: "process v its args sched = Some
     \<lparr> outcome = Raise e, callbacks = 0, spawned = 0,
       trace = init_events v 0 @ map (\<lambda>x. FuncCall 0 x aa) (pre @ [x]), after = v \<rparr>"
    using process_sequential_fails[OF assms(2) pre assms(5), of pre post] assms(1,3)
    by (simp add: process_def)
  have "map_option outcome (process v its' args sched') = Some (Return (map g (elems its')))"
    if "\<forall>y \<in> set (elems its'). worker_func v y aa = Inr (g y)" for its' sched'
    using process_sequential_ok[OF assms(2), of "elems its'" g] that assms(1)
    by (simp add: process_def)
  then show ?thesis using r by simp
qed

theorem sequential_failure_is_clean_witness:
  "\<exists>r. process (Vectorizer 8 square None None 0 []) (Indexable [VInt 1, VStr ''x'', VInt 3]) [] [] = Some r \<and>
       outcome r = Raise (UserError ''not an integer'') \<and> spawned r = 0 \<and>
       after r = Vectorizer 8 square None None 0 [] \<and>
       map_option outcome (process (after r) (Iterable [VInt 2, VInt 3]) [] []) =
         Some (Return (map squared (elems (Iterable [VInt 2, VInt 3]))))"
proof -
  let ?v = "Vectorizer 8 square None None 0 []"
  have h1: "num_workers ?v = 0" by (simp add: Vectorizer_def)
  have h2: "worker_args ?v [] 0 = Some []"
    by (simp add: Vectorizer_def worker_args_def init_if_needed_def)
  have h3: "elems (Indexable [VInt 1, VStr ''x'', VInt 3]) = [VInt 1] @ VStr ''x'' # [VInt 3]"
    by simp
  have h4: "\<forall>y \<in> set [VInt 1]. \<exists>z. worker_func ?v y [] = Inr z"
    by (simp add: Vectorizer_def)
  have h5: "worker_func ?v (VStr ''x'') [] = Inl (UserError ''not an integer'')"
    by (simp add: Vectorizer_def)
  have h6: "\<forall>y \<in> set (elems (Iterable [VInt 2, VInt 3])). worker_func ?v y [] = Inr (squared y)"
    by (simp add: Vectorizer_def)
  from sequential_failure_is_clean [OF h1 h2 h3 h4 h5, of "[]" squared]
  obtain r where r: "process ?v (Indexable [VInt 1, VStr ''x'', VInt 3]) [] [] = Some r"
    "outcome r = Raise (UserError ''not an integer'')" "spawned r = 0" "after r = ?v"
    "\<forall>its' sched'. (\<forall>y \<in> set (elems its'). worker_func ?v y [] = Inr (squared y)) \<longrightarrow>
        map_option outcome (process (after r) its' [] sched') = Some (Return (map squared (elems its')))"
    by blast
  from r(5) h6 have "map_option outcome (process (after r) (Iterable [VInt 2, VInt 3]) [] []) =
         Some (Return (map squared (elems (Iterable [VInt 2, VInt 3]))))"
    by blast
  with r(1-4) show ?thesis by blast
qed

section \<open>The dynamic mode: steps and invariants\<close>

lemma main_stepE [consumes 1, case_names prime_done prime_stop prime_put await refill_stop refill_put drain_done drain]:
  assumes "main_step v s = Some s'"
  obtains
    "pc s = Prime 0" "s' = s\<lparr> pc := Await \<rparr>"
  | k where "pc s = Prime (Suc k)" "iterator s = []" "s' = s\<lparr> pc := Drain (nat (expect s)) \<rparr>"
  | k item rest where "pc s = Prime (Suc k)" "iterator s = item # rest"
      "s' = s\<lparr> iterator := rest, expect := expect s + 1,
               push_queue := push_queue s @ [Some (index s, item)],
               index := index s + 1, pc := Prime k \<rparr>"
  | r q where "pc s = Await" "pull_queue s = r # q"
      "s' = s\<lparr> pull_queue := q, result := result s @ [r],
               cb_calls := (if callback_func v \<noteq> None then cb_calls s + 1 else cb_calls s),
               expect := expect s - 1, pc := Refill \<rparr>"
  | "pc s = Refill" "iterator s = []" "s' = s\<lparr> pc := Drain (nat (expect s)) \<rparr>"
  | item rest where "pc s = Refill" "iterator s = item # rest"
      "s' = s\<lparr> iterator := rest, expect := expect s + 1,
               push_queue := push_queue s @ [Some (index s, item)],
               index := index s + 1, pc := Await \<rparr>"
  | "pc s = Drain 0" "s' = s\<lparr> pc := Finished \<rparr>"
  | k r q where "pc s = Drain (Suc k)" "pull_queue s = r # q"
      "s' = s\<lparr> pull_queue := q, result := result s @ [r],
               cb_calls := (if callback_func v \<noteq> None then cb_calls s + 1 else cb_calls s),
               pc := Drain k \<rparr>"
  using assms
  by (auto simp: main_step_def dispatch_def receive_def
      split: pc.splits nat.splits list.splits option.splits)

lemma worker_stepE [consumes 1, case_names init_fail init_ok sentinel take raise deliver]:
  assumes "worker_step r wfunc winit kw args s = Some s'"
  obtains
    tr e where "r < length (workers s)" "workers s ! r = Spawned"
      "init_if_needed winit r kw = (tr, Inl e)"
      "s' = s\<lparr> workers := (workers s)[r := Dead], events := events s @ tr \<rparr>"
  | tr ini where "r < length (workers s)" "workers s ! r = Spawned"
      "init_if_needed winit r kw = (tr, Inr ini)"
      "s' = s\<lparr> workers := (workers s)[r := Idle (combine_args args ini)], events := events s @ tr \<rparr>"
  | aa q where "r < length (workers s)" "workers s ! r = Idle aa" "push_queue s = None # q"
      "s' = s\<lparr> push_queue := q, workers := (workers s)[r := Exited] \<rparr>"
  | aa idx item q where "r < length (workers s)" "workers s ! r = Idle aa"
      "push_queue s = Some (idx, item) # q"
      "s' = s\<lparr> push_queue := q, workers := (workers s)[r := Busy aa idx item] \<rparr>"
  | aa idx item e where "r < length (workers s)" "workers s ! r = Busy aa idx item"
      "wfunc item aa = Inl e"
      "s' = s\<lparr> workers := (workers s)[r := Dead], events := events s @ [FuncCall r item aa] \<rparr>"
  | aa idx item y where "r < length (workers s)" "workers s ! r = Busy aa idx item"
      "wfunc item aa = Inr y"
      "s' = s\<lparr> workers := (workers s)[r := Idle aa], pull_queue := pull_queue s @ [(idx, y)],
               events := events s @ [FuncCall r item aa] \<rparr>"
  using assms
  by (auto simp: worker_step_def
      split: if_splits wstate.splits prod.splits sum.splits list.splits option.splits)

lemma exec_append:
  "exec v args (sched @ sched') s = (case exec v args sched s of None \<Rightarrow> None | Some s' \<Rightarrow> exec v args sched' s')"
  by (induction sched arbitrary: s) (auto split: option.splits)

lemma exec_invariant:
  assumes "exec v args sched s = Some s'" and "P s"
    and "\<And>a t t'. P t \<Longrightarrow> step v args a t = Some t' \<Longrightarrow> P t'"
  shows "P s'"
  using assms(1,2)
proof (induction sched arbitrary: s)
  case Nil
  then show ?case by simp
next
  case (Cons a sched)
  then show ?case using assms(3) by (auto split: option.splits)
qed


lemma flow_init: "flow (nat (num_workers v)) (consumers_init v xs)"
  by (simp add: flow_def consumers_init_def)

lemma flow_main_step:
  assumes "0 < w" "flow w s" "main_step v s = Some s'"
  shows "flow w s'"
  using assms(3)
proof (cases rule: main_stepE)
  case prime_done then show ?thesis using assms(2) by (simp add: flow_def)
next
  case (prime_stop k) then show ?thesis using assms(2) by (simp add: flow_def)
next
  case (prime_put k item rest) then show ?thesis using assms(2) by (simp add: flow_def)
next
  case (await r q) then show ?thesis using assms(2) by (simp add: flow_def)
next
  case refill_stop then show ?thesis using assms(1,2) by (simp add: flow_def, arith)
next
  case (refill_put item rest) then show ?thesis using assms(2) by (simp add: flow_def)
next
  case drain_done then show ?thesis using assms(2) by (simp add: flow_def)
next
  case (drain k r q) then show ?thesis using assms(2) by (simp add: flow_def)
qed

lemma flow_worker_step:
  assumes "flow w s" "worker_step r wfunc winit kw args s = Some s'"
  shows "flow w s'"
  using assms(2)
  by (cases rule: worker_stepE) (use assms(1) in \<open>simp_all add: flow_def\<close>)

lemma flow_step:
  assumes "0 < w" "flow w s" "step v args a s = Some s'"
  shows "flow w s'"
proof (cases a)
  case Main
  with assms(3) have "main_step v s = Some s'" by simp
  from flow_main_step[OF assms(1,2) this] show ?thesis .
next
  case (Worker r)
  with assms(3) have "worker_step r (worker_func v) (worker_init v) (init_kwargs v) args s = Some s'"
    by simp
  from flow_worker_step[OF assms(2) this] show ?thesis .
qed

lemma flow_exec:
  assumes "0 < num_workers v" "exec v args sched (consumers_init v xs) = Some s"
  shows "flow (nat (num_workers v)) s"
proof (rule exec_invariant[OF assms(2)])
  show "flow (nat (num_workers v)) (consumers_init v xs)" by (rule flow_init)
next
  fix a t t' assume "flow (nat (num_workers v)) t" "step v args a t = Some t'"
  moreover have "0 < nat (num_workers v)" using assms(1) by simp
  ultimately show "flow (nat (num_workers v)) t'" by (rule flow_step[rotated])
qed

lemma flow_in_flight_lower:
  assumes "0 < w" "flow w s"
  shows "0 \<le> in_flight s"
  using assms by (cases "pc s") (auto simp: flow_def in_flight_def)

lemma flow_in_flight_upper:
  assumes "flow w s"
  shows "in_flight s \<le> int w"
  using assms by (cases "pc s") (auto simp: flow_def in_flight_def)

lemma index_step:
  assumes "step v args a s = Some s'" "index s < index s'"
  shows "index s' = index s + 1 \<and> result s' = result s"
proof (cases a)
  case Main
  with assms(1) have "main_step v s = Some s'" by simp
  then show ?thesis using assms(2) by (cases rule: main_stepE) simp_all
next
  case (Worker r)
  with assms(1) have "worker_step r (worker_func v) (worker_init v) (init_kwargs v) args s = Some s'" by simp
  then show ?thesis using assms(2) by (cases rule: worker_stepE) simp_all
qed


lemma init_ranks_append [simp]: "init_ranks (tr1 @ tr2) = init_ranks tr1 @ init_ranks tr2"
  by (simp add: init_ranks_def)

lemma init_ranks_Nil [simp]: "init_ranks [] = []"
  by (simp add: init_ranks_def)

lemma init_ranks_Cons_Init [simp]: "init_ranks (InitCall r kw # tr) = r # init_ranks tr"
  by (simp add: init_ranks_def)

lemma init_ranks_Cons_Func [simp]: "init_ranks (FuncCall r x aa # tr) = init_ranks tr"
  by (simp add: init_ranks_def)

lemma init_ranks_calls [simp]: "init_ranks (map (\<lambda>x. FuncCall r x aa) calls) = []"
  by (induction calls) simp_all

lemma init_ranks_subset: "set (init_ranks tr) \<subseteq> rank_of ` set tr"
  by (auto simp: init_ranks_def)

lemma disciplined_append:
  "disciplined S (tr1 @ tr2) \<longleftrightarrow> disciplined S tr1 \<and> disciplined (S \<union> set (init_ranks tr1)) tr2"
proof (induction tr1 arbitrary: S)
  case Nil
  then show ?case by simp
next
  case (Cons e tr1)
  then show ?case by (cases e) (auto simp: Un_insert_left)
qed


lemma init_events_cases:
  "(worker_init v = None \<and> init_events v r = []) \<or>
   (worker_init v \<noteq> None \<and> init_events v r = [InitCall r (init_kwargs v)])"
  by (auto simp: init_events_def init_if_needed_def split: option.splits)

lemma worker_args_derived:
  assumes "worker_args v args r = Some aa"
  shows "case worker_init v of
           None \<Rightarrow> aa = args
         | Some init \<Rightarrow> (\<exists>b. init r (init_kwargs v) = Inr b \<and> aa = args @ init_derived b)"
proof (cases "worker_init v")
  case None
  then show ?thesis using assms by (simp add: worker_args_def init_if_needed_def)
next
  case (Some init)
  then obtain b where b: "init r (init_kwargs v) = Inr b" "aa = combine_args args b"
    using assms by (auto simp: worker_args_def init_if_needed_def split: sum.splits)
  have "combine_args args b = args @ init_derived b" by (cases b) simp_all
  then show ?thesis using Some b by simp
qed

lemma trace_ok_init: "trace_ok v args (consumers_init v xs)"
  by (simp add: trace_ok_def consumers_init_def)

lemma trace_ok_main_step:
  assumes "trace_ok v args s" "main_step v s = Some s'"
  shows "trace_ok v args s'"
  using assms(2) by (cases rule: main_stepE) (use assms(1) in \<open>simp_all add: trace_ok_def\<close>)


lemma worker_ok_mono:
  assumes "worker_ok v args tr r w" "r \<notin> rank_of ` set tr'"
  shows "worker_ok v args (tr @ tr') r w"
  using assms by (cases w) (auto simp: started_def)

lemma trace_ok_events:
  assumes ok: "trace_ok v args s"
    and r: "r < length (workers s)"
    and new: "\<forall>e \<in> set tr. event_ok v args (length (workers s)) e \<and> rank_of e = r"
    and w: "worker_ok v args (events s @ tr) r w"
    and d: "worker_init v \<noteq> None \<longrightarrow> disciplined (set (init_ranks (events s))) tr"
    and i: "set (init_ranks tr) \<inter> set (init_ranks (events s)) = {}" "distinct (init_ranks tr)"
  shows "trace_ok v args (s\<lparr> workers := (workers s)[r := w], events := events s @ tr \<rparr>)"
proof -
  have 1: "\<forall>e \<in> set (events s @ tr). event_ok v args (length ((workers s)[r := w])) e"
    using ok new by (auto simp: trace_ok_def)
  have 2: "worker_ok v args (events s @ tr) r' ((workers s)[r := w] ! r')"
    if "r' < length (workers s)" for r'
  proof (cases "r' = r")
    case True
    then show ?thesis using w r by simp
  next
    case False
    have "worker_ok v args (events s) r' (workers s ! r')"
      using ok that by (simp add: trace_ok_def)
    moreover have "r' \<notin> rank_of ` set tr" using new False by auto
    ultimately have "worker_ok v args (events s @ tr) r' (workers s ! r')"
      by (rule worker_ok_mono)
    then show ?thesis using False by simp
  qed
  have 3: "worker_init v \<noteq> None \<longrightarrow> disciplined {} (events s @ tr)"
    using ok d by (simp add: trace_ok_def disciplined_append)
  have 4: "distinct (init_ranks (events s @ tr))"
    using ok i by (auto simp: trace_ok_def)
  show ?thesis using 1 2 3 4 by (simp add: trace_ok_def)
qed

lemma trace_ok_quiet:
  assumes ok: "trace_ok v args s"
    and r: "r < length (workers s)"
    and w: "worker_ok v args (events s) r w"
  shows "trace_ok v args (s\<lparr> push_queue := q, workers := (workers s)[r := w] \<rparr>)"
proof -
  have "worker_ok v args (events s) r' ((workers s)[r := w] ! r')"
    if "r' < length (workers s)" for r'
    using ok that w r by (cases "r' = r") (simp_all add: trace_ok_def)
  then show ?thesis using ok by (simp add: trace_ok_def)
qed

lemma trace_ok_worker_step:
  assumes ok: "trace_ok v args s"
    and st: "worker_step r (worker_func v) (worker_init v) (init_kwargs v) args s = Some s'"
  shows "trace_ok v args s'"
  using st
proof (cases rule: worker_stepE)
  case (init_fail tr e)
  have tr: "tr = init_events v r" using init_fail(3) by (simp add: init_events_def)
  have sp: "worker_ok v args (events s) r Spawned"
    using ok init_fail(1,2) by (auto simp: trace_ok_def)
  then have fresh: "r \<notin> set (init_ranks (events s))" using init_ranks_subset by fastforce
  show ?thesis unfolding init_fail(4)
  proof (rule trace_ok_events[OF ok init_fail(1)])
    show "\<forall>e \<in> set tr. event_ok v args (length (workers s)) e \<and> rank_of e = r"
      using init_events_cases[of v r] init_fail(1) tr by auto
    show "worker_ok v args (events s @ tr) r Dead"
      using init_events_cases[of v r] tr by (auto simp: started_def)
    show "worker_init v \<noteq> None \<longrightarrow> disciplined (set (init_ranks (events s))) tr"
      using init_events_cases[of v r] tr fresh by auto
    show "set (init_ranks tr) \<inter> set (init_ranks (events s)) = {}"
      using init_events_cases[of v r] tr fresh by auto
    show "distinct (init_ranks tr)"
      using init_events_cases[of v r] tr by auto
  qed
next
  case (init_ok tr ini)
  have tr: "tr = init_events v r" using init_ok(3) by (simp add: init_events_def)
  have wa: "worker_args v args r = Some (combine_args args ini)"
    using init_ok(3) by (simp add: worker_args_def)
  have sp: "worker_ok v args (events s) r Spawned"
    using ok init_ok(1,2) by (auto simp: trace_ok_def)
  then have fresh: "r \<notin> set (init_ranks (events s))" using init_ranks_subset by fastforce
  show ?thesis unfolding init_ok(4)
  proof (rule trace_ok_events[OF ok init_ok(1)])
    show "\<forall>e \<in> set tr. event_ok v args (length (workers s)) e \<and> rank_of e = r"
      using init_events_cases[of v r] init_ok(1) tr by auto
    show "worker_ok v args (events s @ tr) r (Idle (combine_args args ini))"
      using init_events_cases[of v r] tr wa by (auto simp: started_def)
    show "worker_init v \<noteq> None \<longrightarrow> disciplined (set (init_ranks (events s))) tr"
      using init_events_cases[of v r] tr fresh by auto
    show "set (init_ranks tr) \<inter> set (init_ranks (events s)) = {}"
      using init_events_cases[of v r] tr fresh by auto
    show "distinct (init_ranks tr)"
      using init_events_cases[of v r] tr by auto
  qed
next
  case (sentinel aa q)
  have "worker_ok v args (events s) r (Idle aa)"
    using ok sentinel(1,2) by (auto simp: trace_ok_def)
  then have "worker_ok v args (events s) r Exited" by simp
  from trace_ok_quiet[OF ok sentinel(1) this] show ?thesis unfolding sentinel(4) .
next
  case (take aa idx item q)
  have "worker_ok v args (events s) r (Idle aa)"
    using ok take(1,2) by (auto simp: trace_ok_def)
  then have "worker_ok v args (events s) r (Busy aa idx item)" by simp
  from trace_ok_quiet[OF ok take(1) this] show ?thesis unfolding take(4) .
next
  case (raise aa idx item e)
  have b: "worker_ok v args (events s) r (Busy aa idx item)"
    using ok raise(1,2) by (auto simp: trace_ok_def)
  show ?thesis unfolding raise(4)
  proof (rule trace_ok_events[OF ok raise(1)])
    show "\<forall>e \<in> set [FuncCall r item aa]. event_ok v args (length (workers s)) e \<and> rank_of e = r"
      using b raise(1) by simp
    show "worker_ok v args (events s @ [FuncCall r item aa]) r Dead"
      using b by (simp add: started_def)
    show "worker_init v \<noteq> None \<longrightarrow> disciplined (set (init_ranks (events s))) [FuncCall r item aa]"
      using b by (simp add: started_def)
  qed simp_all
next
  case (deliver aa idx item y)
  have b: "worker_ok v args (events s) r (Busy aa idx item)"
    using ok deliver(1,2) by (auto simp: trace_ok_def)
  have "trace_ok v args (s\<lparr> workers := (workers s)[r := Idle aa],
                            events := events s @ [FuncCall r item aa] \<rparr>)"
  proof (rule trace_ok_events[OF ok deliver(1)])
    show "\<forall>e \<in> set [FuncCall r item aa]. event_ok v args (length (workers s)) e \<and> rank_of e = r"
      using b deliver(1) by simp
    show "worker_ok v args (events s @ [FuncCall r item aa]) r (Idle aa)"
      using b by (simp add: started_def)
    show "worker_init v \<noteq> None \<longrightarrow> disciplined (set (init_ranks (events s))) [FuncCall r item aa]"
      using b by (simp add: started_def)
  qed simp_all
  then show ?thesis unfolding deliver(4) by (simp add: trace_ok_def)
qed

lemma trace_ok_exec:
  assumes "exec v args sched (consumers_init v xs) = Some s"
  shows "trace_ok v args s"
proof (rule exec_invariant[OF assms])
  show "trace_ok v args (consumers_init v xs)" by (rule trace_ok_init)
next
  fix a t t' assume t: "trace_ok v args t" and st: "step v args a t = Some t'"
  show "trace_ok v args t'"
  proof (cases a)
    case Main
    with st have "main_step v t = Some t'" by simp
    with t show ?thesis by (rule trace_ok_main_step)
  next
    case (Worker r)
    with st have "worker_step r (worker_func v) (worker_init v) (init_kwargs v) args t = Some t'"
      by simp
    with t show ?thesis by (rule trace_ok_worker_step)
  qed
qed



lemma item_loop_worker_trace:
  assumes "worker_args v args r = Some aa"
  shows "worker_trace v args r (fst (item_loop (worker_func v) r aa tick items (init_events v r, 0, [])))"
proof -
  obtain tr' t' out where l: "item_loop (worker_func v) r aa tick items (init_events v r, 0, []) = (tr', t', out)"
    by (cases "item_loop (worker_func v) r aa tick items (init_events v r, 0, [])") auto
  from item_loop_trace[OF l] obtain calls where "tr' = init_events v r @ map (\<lambda>x. FuncCall r x aa) calls"
    by blast
  then show ?thesis using l assms by (auto simp: worker_trace_def)
qed

lemma batch_worker_trace:
  "worker_trace v args r
     (fst (batch_worker tick r (worker_func v) (worker_init v) (init_kwargs v) items args))"
proof (cases "worker_args v args r")
  case None
  from batch_worker_init_fails[OF this] obtain e where
    "batch_worker tick r (worker_func v) (worker_init v) (init_kwargs v) items args =
       (init_events v r, 0, Inl e)" by blast
  then show ?thesis by (simp add: worker_trace_def)
next
  case (Some aa)
  then show ?thesis using item_loop_worker_trace[OF Some] by (simp add: batch_worker_args)
qed

lemma sequential_trace:
  "worker_trace v args 0 (trace (process_sequential v xs args))"
proof (cases "worker_args v args 0")
  case None
  then obtain tr e where "init_if_needed (worker_init v) 0 (init_kwargs v) = (tr, Inl e)"
    by (cases "init_if_needed (worker_init v) 0 (init_kwargs v)")
       (auto simp: worker_args_def split: sum.splits)
  then show ?thesis by (simp add: process_sequential_def worker_trace_def init_events_def)
next
  case (Some aa)
  then obtain tr ini where i: "init_if_needed (worker_init v) 0 (init_kwargs v) = (tr, Inr ini)"
    "aa = combine_args args ini"
    by (cases "init_if_needed (worker_init v) 0 (init_kwargs v)")
       (auto simp: worker_args_def split: sum.splits)
  have "trace (process_sequential v xs args) =
        fst (item_loop (worker_func v) 0 aa False xs (init_events v 0, 0, []))"
    using i by (simp add: process_sequential_def init_events_def split: prod.splits sum.splits)
  then show ?thesis using item_loop_worker_trace[OF Some] by simp
qed

lemma worker_trace_call:
  assumes "worker_trace v args r tr" "FuncCall r' x aa \<in> set tr"
  shows "r' = r \<and> worker_args v args r = Some aa"
  using assms init_events_cases[of v r] by (auto simp: worker_trace_def)





lemma concat_calls:
  assumes "\<And>i. i < n \<Longrightarrow> worker_trace v args i (T i)"
    and "FuncCall r x aa \<in> set (concat (map T [0..<n]))"
  shows "r < n \<and> worker_args v args r = Some aa"
proof -
  from assms(2) obtain i where "i < n" "FuncCall r x aa \<in> set (T i)" by auto
  with worker_trace_call[OF assms(1)[OF this(1)] this(2)] show ?thesis by simp
qed

lemma trace_batch_collect: "trace (batch_collect v n ws) = concat (map fst ws)"
  by (simp add: batch_collect_def Let_def split: prod.splits option.splits)

lemma batch_trace:
  assumes "batch_splits (length xs) (num_workers v) = Inr sp"
  shows "\<exists>T. trace (process_batches v xs args) = concat (map T [0..<nat (num_workers v)]) \<and>
             (\<forall>i. worker_trace v args i (T i))"
proof -
  let ?T = "\<lambda>i. fst (batch_worker (callback_func v \<noteq> None) i (worker_func v) (worker_init v)
                (init_kwargs v) (slice xs (sp ! i) (sp ! (i + 1))) args)"
  have "trace (process_batches v xs args) = concat (map ?T [0..<nat (num_workers v)])"
    using assms by (simp add: process_batches_def trace_batch_collect batch_workers_def comp_def)
  moreover have "\<forall>i. worker_trace v args i (?T i)" using batch_worker_trace by blast
  ultimately show ?thesis by blast
qed


lemma calls_carry_worker_args:
  assumes "tr = trace (process_sequential v xs args) \<or>
           tr = trace (process_batches v xs args) \<or>
           (\<exists>sched s. exec v args sched (consumers_init v xs) = Some s \<and> tr = events s)"
    and "FuncCall r x aa \<in> set tr"
  shows "worker_args v args r = Some aa"
proof -
  consider (seq) "tr = trace (process_sequential v xs args)"
    | (static) "tr = trace (process_batches v xs args)"
    | (dyn) sched s where "exec v args sched (consumers_init v xs) = Some s" "tr = events s"
    using assms(1) by blast
  then show ?thesis
  proof cases
    case seq
    with worker_trace_call[OF sequential_trace[of v args xs], of r x aa] assms(2) show ?thesis by simp
  next
    case static
    show ?thesis
    proof (cases "batch_splits (length xs) (num_workers v)")
      case (Inl e)
      then have "tr = []" using static by (simp add: process_batches_def)
      with assms(2) show ?thesis by simp
    next
      case (Inr sp)
      from batch_trace[OF Inr, of args] obtain T where
        T: "trace (process_batches v xs args) = concat (map T [0..<nat (num_workers v)])"
           "\<forall>i. worker_trace v args i (T i)" by blast
      have "FuncCall r x aa \<in> set (concat (map T [0..<nat (num_workers v)]))"
        using assms(2) static T(1) by simp
      with concat_calls[of "nat (num_workers v)" v args T r x aa] T(2) show ?thesis by blast
    qed
  next
    case dyn
    from trace_ok_exec[OF dyn(1)] assms(2) dyn(2)
    have "event_ok v args (length (workers s)) (FuncCall r x aa)"
      by (auto simp: trace_ok_def)
    then show ?thesis by simp
  qed
qed


lemma drop_eq_Cons:
  assumes "drop n xs = y # ys"
  shows "n < length xs \<and> y = xs ! n \<and> ys = drop (Suc n) xs"
proof -
  have n: "n < length xs" using assms by (cases "n < length xs") auto
  from Cons_nth_drop_Suc[OF n] assms show ?thesis using n by simp
qed

lemma main_ok_init: "main_ok (nat (num_workers v)) xs (consumers_init v xs)"
  using flow_init[of v xs] by (simp add: main_ok_def consumers_init_def)

lemma main_ok_main_step:
  assumes w: "0 < w" and ok: "main_ok w xs s" and st: "main_step v s = Some s'"
  shows "main_ok w xs s'"
proof -
  have f: "flow w s'" using ok flow_main_step[OF w _ st] by (simp add: main_ok_def)
  have it: "drop (index s) xs = iterator s" "index s \<le> length xs"
    "draining (pc s) \<longrightarrow> iterator s = []"
    using ok unfolding main_ok_def by blast+
  from st show ?thesis
  proof (cases rule: main_stepE)
    case prime_done then show ?thesis using f it by (simp add: main_ok_def)
  next
    case (prime_stop k) then show ?thesis using f it by (simp add: main_ok_def)
  next
    case (prime_put k item rest)
    with it(1) have "drop (index s) xs = item # rest" by simp
    from drop_eq_Cons[OF this] show ?thesis using f prime_put by (simp add: main_ok_def)
  next
    case (await r q) then show ?thesis using f it by (simp add: main_ok_def)
  next
    case refill_stop then show ?thesis using f it by (simp add: main_ok_def)
  next
    case (refill_put item rest)
    with it(1) have "drop (index s) xs = item # rest" by simp
    from drop_eq_Cons[OF this] show ?thesis using f refill_put by (simp add: main_ok_def)
  next
    case drain_done then show ?thesis using f it by (simp add: main_ok_def)
  next
    case (drain k r q) then show ?thesis using f it by (simp add: main_ok_def)
  qed
qed

lemma main_ok_cong:
  assumes "pc s' = pc s" "index s' = index s" "expect s' = expect s" "result s' = result s"
    "iterator s' = iterator s"
  shows "main_ok w xs s' = main_ok w xs s"
  by (simp add: main_ok_def flow_def assms)

lemma main_ok_worker_step:
  assumes "main_ok w xs s" "worker_step r wfunc winit kw args s = Some s'"
  shows "main_ok w xs s'"
proof -
  have "main_ok w xs s' = main_ok w xs s"
    using assms(2) by (cases rule: worker_stepE) (simp_all add: main_ok_def flow_def)
  with assms(1) show ?thesis by simp
qed

lemma sum_list_map_update:
  fixes f :: "'a \<Rightarrow> 'b::comm_monoid_add"
  assumes "r < length ws"
  shows "sum_list (map f (ws[r := w])) + f (ws ! r) = sum_list (map f ws) + f w"
  using assms
proof (induction ws arbitrary: r)
  case Nil
  then show ?case by simp
next
  case (Cons a ws)
  show ?case
  proof (cases r)
    case 0
    then show ?thesis by (simp add: ac_simps)
  next
    case (Suc r')
    with Cons.prems have "r' < length ws" by simp
    from Cons.IH[OF this] show ?thesis using Suc
      by (simp add: ac_simps)
  qed
qed

lemma held_update_same:
  assumes "r < length ws" "held (ws ! r) = held w"
  shows "sum_list (map held (ws[r := w])) = sum_list (map held ws)"
  using sum_list_map_update[OF assms(1), of held w] assms(2) by simp

lemma held_take:
  assumes "r < length ws" "held (ws ! r) = {#}"
  shows "sum_list (map held (ws[r := Busy aa i x])) = sum_list (map held ws) + {#i#}"
  using sum_list_map_update[OF assms(1), of held "Busy aa i x"] assms(2) by simp

lemma held_give:
  assumes "r < length ws" "ws ! r = Busy aa i x" "held w = {#}"
  shows "sum_list (map held (ws[r := w])) + {#i#} = sum_list (map held ws)"
  using sum_list_map_update[OF assms(1), of held w] assms(2,3) by simp

lemma tokens_init: "tokens (consumers_init v xs) = mset [0..<index (consumers_init v xs)]"
proof -
  have "sum_list (map held (replicate n Spawned)) = {#}" for n
    by (induction n) simp_all
  then show ?thesis by (simp add: tokens_def consumers_init_def)
qed

lemma tokens_main_step:
  assumes t: "tokens s = mset [0..<index s]" and st: "main_step v s = Some s'"
  shows "tokens s' = mset [0..<index s']"
proof -
  have "(tokens s' = tokens s \<and> index s' = index s) \<or>
        (tokens s' = tokens s + {#index s#} \<and> index s' = Suc (index s))"
    using st by (cases rule: main_stepE) (simp_all add: tokens_def)
  then show ?thesis using t by (auto simp del: mset_upt)
qed

lemma tokens_worker_step:
  assumes t: "tokens s = mset [0..<index s]"
    and st: "worker_step r wfunc winit kw args s = Some s'"
    and alive: "\<And>aa idx item e. workers s ! r = Busy aa idx item \<Longrightarrow> wfunc item aa \<noteq> Inl e"
  shows "tokens s' = mset [0..<index s']"
proof -
  have "tokens s' = tokens s \<and> index s' = index s"
    using st
  proof (cases rule: worker_stepE)
    case (init_fail tr e)
    then show ?thesis using held_update_same[of r "workers s" Dead] by (simp add: tokens_def)
  next
    case (init_ok tr ini)
    then show ?thesis using held_update_same[of r "workers s" "Idle (combine_args args ini)"]
      by (simp add: tokens_def)
  next
    case (sentinel aa q)
    then show ?thesis using held_update_same[of r "workers s" Exited] by (simp add: tokens_def)
  next
    case (take aa idx item q)
    then show ?thesis using held_take[of r "workers s" aa idx item] by (simp add: tokens_def)
  next
    case (raise aa idx item e)
    from alive[OF raise(2), of e] raise(3) show ?thesis by simp
  next
    case (deliver aa idx item y)
    have "sum_list (map held ((workers s)[r := Idle aa])) + {#idx#} = sum_list (map held (workers s))"
      by (rule held_give[OF deliver(1,2)]) simp
    then have "sum_list (map held (workers s)) = sum_list (map held ((workers s)[r := Idle aa])) + {#idx#}"
      by simp
    then show ?thesis using deliver(4) by (simp add: tokens_def)
  qed
  with t show ?thesis by (simp del: mset_upt)
qed


lemma uniform_args:
  assumes "uniform v args w xs g" "r < w"
  obtains aa where "worker_args v args r = Some aa"
  using assms by (auto simp: uniform_iff)

lemma uniform_result:
  assumes "uniform v args w xs g" "r < w" "worker_args v args r = Some aa" "x \<in> set xs"
  shows "worker_func v x aa = Inr (g x)"
  using assms by (auto simp: uniform_iff)

lemma content_ok_init: "content_ok v args xs g (consumers_init v xs)"
  by (simp add: content_ok_def consumers_init_def)

lemma content_ok_main_step:
  assumes m: "main_ok w xs s" and c: "content_ok v args xs g s" and st: "main_step v s = Some s'"
  shows "content_ok v args xs g s'"
proof -
  have put: "content_ok v args xs g
      (s\<lparr> iterator := rest, expect := expect s + 1,
          push_queue := push_queue s @ [Some (index s, item)],
          index := index s + 1, pc := p \<rparr>)"
    if "iterator s = item # rest" for item rest p
  proof -
    from m that have "drop (index s) xs = item # rest" by (simp add: main_ok_def)
    from drop_eq_Cons[OF this] have "work_ok xs (Some (index s, item))" by simp
    then show ?thesis using c by (simp add: content_ok_def)
  qed
  from st show ?thesis
  proof (cases rule: main_stepE)
    case prime_done then show ?thesis using c by (simp add: content_ok_def)
  next
    case (prime_stop k) then show ?thesis using c by (simp add: content_ok_def)
  next
    case (prime_put k item rest) then show ?thesis using put by simp
  next
    case (await r q) then show ?thesis using c by (simp add: content_ok_def)
  next
    case refill_stop then show ?thesis using c by (simp add: content_ok_def)
  next
    case (refill_put item rest) then show ?thesis using put by simp
  next
    case drain_done then show ?thesis using c by (simp add: content_ok_def)
  next
    case (drain k r q) then show ?thesis using c by (simp add: content_ok_def)
  qed
qed

lemma workers_update_good:
  assumes "\<forall>r' < length ws. worker_good v args xs r' (ws ! r')" "worker_good v args xs r w"
  shows "\<forall>r' < length (ws[r := w]). worker_good v args xs r' (ws[r := w] ! r')"
proof (intro allI impI)
  fix r' assume "r' < length (ws[r := w])"
  then have r': "r' < length ws" by simp
  show "worker_good v args xs r' (ws[r := w] ! r')"
  proof (cases "r' = r")
    case True
    with r' assms(2) show ?thesis by simp
  next
    case False
    with r' assms(1) show ?thesis by simp
  qed
qed

lemma content_ok_worker_step:
  assumes u: "uniform v args (nat (num_workers v)) xs g"
    and c: "content_ok v args xs g s"
    and st: "worker_step r (worker_func v) (worker_init v) (init_kwargs v) args s = Some s'"
  shows "content_ok v args xs g s'"
proof -
  have len: "length (workers s) = nat (num_workers v)"
    and pq: "list_all (work_ok xs) (push_queue s)"
    and ws: "\<forall>r' < length (workers s). worker_good v args xs r' (workers s ! r')"
    and rq: "list_all (res_ok xs g) (pull_queue s)"
    and rs: "list_all (res_ok xs g) (result s)"
    using c by (simp_all add: content_ok_def)
  from st show ?thesis
  proof (cases rule: worker_stepE)
    case (init_fail tr e)
    then have "worker_args v args r = None" by (simp add: worker_args_def)
    moreover from init_fail(1) len have "r < nat (num_workers v)" by simp
    ultimately show ?thesis using uniform_args[OF u] by fastforce
  next
    case (init_ok tr ini)
    then have "worker_good v args xs r (Idle (combine_args args ini))"
      by (simp add: worker_args_def)
    from workers_update_good[OF ws this] show ?thesis
      using init_ok(4) len pq rq rs by (simp add: content_ok_def)
  next
    case (sentinel aa q)
    then show ?thesis using pq by simp
  next
    case (take aa idx item q)
    have "worker_good v args xs r (Idle aa)" using ws take(1,2) by fastforce
    moreover have "work_ok xs (Some (idx, item))" "list_all (work_ok xs) q"
      using pq take(3) by simp_all
    ultimately have "worker_good v args xs r (Busy aa idx item)" by simp
    from workers_update_good[OF ws this] show ?thesis
      using take(4) len \<open>list_all (work_ok xs) q\<close> rq rs by (simp add: content_ok_def)
  next
    case (raise aa idx item e)
    have b: "worker_good v args xs r (Busy aa idx item)" using ws raise(1,2) by fastforce
    then have "item \<in> set xs" by simp
    from uniform_result[OF u _ _ this, of r aa] b raise(1,3) len show ?thesis by simp
  next
    case (deliver aa idx item y)
    have b: "worker_good v args xs r (Busy aa idx item)" using ws deliver(1,2) by fastforce
    then have "item \<in> set xs" by simp
    from uniform_result[OF u _ _ this, of r aa] b deliver(1,3) len have "y = g item" by simp
    with b have "res_ok xs g (idx, y)" by (simp add: res_ok_def)
    moreover from b have "worker_good v args xs r (Idle aa)" by simp
    note workers_update_good[OF ws this]
    ultimately show ?thesis
      using deliver(4) len pq rq rs by (simp add: content_ok_def)
  qed
qed

lemma sound_init: "sound v args xs g (consumers_init v xs)"
  using main_ok_init[of v xs] content_ok_init[of v args xs g] tokens_init[of v xs]
  by (simp add: sound_def)

lemma sound_step:
  assumes w: "0 < num_workers v"
    and u: "uniform v args (nat (num_workers v)) xs g"
    and s: "sound v args xs g s"
    and st: "step v args a s = Some s'"
  shows "sound v args xs g s'"
proof -
  have m: "main_ok (nat (num_workers v)) xs s" and c: "content_ok v args xs g s"
    and t: "tokens s = mset [0..<index s]"
    using s by (simp_all add: sound_def)
  have w': "0 < nat (num_workers v)" using w by simp
  show ?thesis
  proof (cases a)
    case Main
    with st have ms: "main_step v s = Some s'" by simp
    from main_ok_main_step[OF w' m ms] content_ok_main_step[OF m c ms] tokens_main_step[OF t ms]
    show ?thesis by (simp add: sound_def)
  next
    case (Worker r)
    with st have ws: "worker_step r (worker_func v) (worker_init v) (init_kwargs v) args s = Some s'"
      by simp
    have alive: "worker_func v item aa \<noteq> Inl e" if "workers s ! r = Busy aa idx item"
      for aa idx item e
    proof -
      have r: "r < length (workers s)" using ws by (cases rule: worker_stepE) simp_all
      with c that have b: "worker_good v args xs r (Busy aa idx item)"
        by (fastforce simp: content_ok_def)
      then have "item \<in> set xs" by simp
      from uniform_result[OF u _ _ this, of r aa] b r c show ?thesis
        by (simp add: content_ok_def)
    qed
    from main_ok_worker_step[OF m ws] content_ok_worker_step[OF u c ws]
      tokens_worker_step[OF t ws alive]
    show ?thesis by (simp add: sound_def)
  qed
qed

lemma sound_exec:
  assumes w: "0 < num_workers v"
    and u: "uniform v args (nat (num_workers v)) xs g"
    and ex: "exec v args sched (consumers_init v xs) = Some s"
  shows "sound v args xs g s"
proof (rule exec_invariant[OF ex])
  show "sound v args xs g (consumers_init v xs)" by (rule sound_init)
next
  fix a t t' assume "sound v args xs g t" "step v args a t = Some t'"
  with w u show "sound v args xs g t'" by (rule sound_step)
qed


lemma meas_main_step:
  assumes "main_step v s = Some s'"
  shows "meas s' < meas s"
  using assms by (cases rule: main_stepE) (simp_all add: meas_def)

lemma meas_worker_step:
  assumes "worker_step r wfunc winit kw args s = Some s'"
  shows "meas s' < meas s"
  using assms
proof (cases rule: worker_stepE)
  case (init_fail tr e)
  with sum_list_map_update[OF init_fail(1), of worker_weight Dead] show ?thesis
    by (simp add: meas_def)
next
  case (init_ok tr ini)
  with sum_list_map_update[OF init_ok(1), of worker_weight "Idle (combine_args args ini)"]
  show ?thesis by (simp add: meas_def)
next
  case (sentinel aa q)
  with sum_list_map_update[OF sentinel(1), of worker_weight Exited] show ?thesis
    by (simp add: meas_def)
next
  case (take aa idx item q)
  with sum_list_map_update[OF take(1), of worker_weight "Busy aa idx item"] show ?thesis
    by (simp add: meas_def)
next
  case (raise aa idx item e)
  with sum_list_map_update[OF raise(1), of worker_weight Dead] show ?thesis
    by (simp add: meas_def)
next
  case (deliver aa idx item y)
  with sum_list_map_update[OF deliver(1), of worker_weight "Idle aa"] show ?thesis
    by (simp add: meas_def)
qed

lemma meas_step:
  assumes "step v args a s = Some s'"
  shows "meas s' < meas s"
  using assms meas_main_step meas_worker_step by (cases a) auto

lemma exec_bounded:
  assumes "exec v args sched s = Some s'"
  shows "length sched + meas s' \<le> meas s"
  using assms
proof (induction sched arbitrary: s)
  case Nil
  then show ?case by simp
next
  case (Cons a sched)
  then obtain t where t: "step v args a s = Some t" "exec v args sched t = Some s'"
    by (auto split: option.splits)
  from Cons.IH[OF t(2)] meas_step[OF t(1)] show ?case by simp
qed

lemma meas_init: "meas (consumers_init v xs) = 4 * length xs + nat (num_workers v) + 3"
proof -
  have "sum_list (map worker_weight (replicate n Spawned)) = n" for n
    by (induction n) simp_all
  then show ?thesis by (simp add: meas_def consumers_init_def)
qed

lemma sum_list_mset_nonempty:
  assumes "sum_list (map f ws) \<noteq> ({#} :: nat multiset)"
  shows "\<exists>r < length ws. f (ws ! r) \<noteq> {#}"
proof -
  have "\<exists>w \<in> set ws. f w \<noteq> {#}" using assms by (induction ws) auto
  then show ?thesis by (auto simp: in_set_conv_nth)
qed

lemma size_tokens:
  "size (tokens s) = size (sum_list (map work_idx (push_queue s))) +
     size (sum_list (map held (workers s))) + length (pull_queue s) + length (result s)"
  by (simp add: tokens_def)

lemma main_moves:
  assumes "pc s \<noteq> Finished" "pull_queue s \<noteq> [] \<or> (pc s \<noteq> Await \<and> (\<forall>k. pc s \<noteq> Drain (Suc k)))"
  shows "\<exists>s'. main_step v s = Some s'"
proof (cases "pc s")
  case (Prime k)
  then show ?thesis by (cases k) (simp_all add: main_step_def)
next
  case Await
  with assms(2) obtain r q where "pull_queue s = r # q" by (cases "pull_queue s") auto
  with Await show ?thesis by (simp add: main_step_def receive_def)
next
  case Refill
  then show ?thesis by (simp add: main_step_def)
next
  case (Drain k)
  show ?thesis
  proof (cases k)
    case 0
    with Drain show ?thesis by (simp add: main_step_def)
  next
    case (Suc k')
    with Drain assms(2) obtain r q where "pull_queue s = r # q" by (cases "pull_queue s") auto
    with Drain Suc show ?thesis by (simp add: main_step_def receive_def)
  qed
next
  case Finished
  with assms(1) show ?thesis by simp
qed

lemma worker_moves:
  assumes "r < length (workers s)"
    and "workers s ! r = Spawned \<or> (\<exists>aa i x. workers s ! r = Busy aa i x) \<or>
         ((\<exists>aa. workers s ! r = Idle aa) \<and> push_queue s \<noteq> [])"
  shows "\<exists>s'. worker_step r wfunc winit kw args s = Some s'"
  using assms
  by (auto simp: worker_step_def split: prod.splits sum.splits list.splits option.splits)


lemma progress:
  assumes w: "0 < num_workers v" and s: "sound v args xs g s" and nf: "pc s \<noteq> Finished"
  shows "\<exists>a s'. step v args a s = Some s'"
proof (cases "pull_queue s \<noteq> [] \<or> (pc s \<noteq> Await \<and> (\<forall>k. pc s \<noteq> Drain (Suc k)))")
  case True
  from main_moves[OF nf True, of v] obtain s' where "step v args Main s = Some s'" by auto
  then show ?thesis by blast
next
  case False
  then have pq: "pull_queue s = []" and at: "pc s = Await \<or> (\<exists>k. pc s = Drain (Suc k))"
    by auto
  have m: "main_ok (nat (num_workers v)) xs s" and c: "content_ok v args xs g s"
    and t: "tokens s = mset [0..<index s]"
    using s by (simp_all add: sound_def)
  have "flow (nat (num_workers v)) s" using m by (simp add: main_ok_def)
  with at w have "length (result s) < index s" by (auto simp: flow_def)
  moreover have "size (tokens s) = index s" using t by (simp del: mset_upt)
  ultimately have pos: "sum_list (map work_idx (push_queue s)) \<noteq> {#} \<or>
                        sum_list (map held (workers s)) \<noteq> {#}"
    using pq by (auto simp: size_tokens)
  have len: "length (workers s) = nat (num_workers v)"
    and good: "\<forall>r < length (workers s). worker_good v args xs r (workers s ! r)"
    using c by (simp_all add: content_ok_def)
  show ?thesis
  proof (cases "sum_list (map held (workers s)) \<noteq> {#}")
    case True
    from sum_list_mset_nonempty[OF this] obtain r where
      r: "r < length (workers s)" "held (workers s ! r) \<noteq> {#}" by blast
    then have "\<exists>aa i x. workers s ! r = Busy aa i x" by (cases "workers s ! r") simp_all
    with worker_moves[OF r(1), of "worker_func v" "worker_init v" "init_kwargs v" args]
    obtain s' where "step v args (Worker r) s = Some s'" by auto
    then show ?thesis by blast
  next
    case False
    with pos have "push_queue s \<noteq> []" by auto
    moreover have 0: "0 < length (workers s)" using len w by simp
    moreover from good 0 have "worker_good v args xs 0 (workers s ! 0)" by simp
    then have "workers s ! 0 = Spawned \<or> (\<exists>aa i x. workers s ! 0 = Busy aa i x) \<or>
               (\<exists>aa. workers s ! 0 = Idle aa)"
      by (cases "workers s ! 0") simp_all
    ultimately have "workers s ! 0 = Spawned \<or> (\<exists>aa i x. workers s ! 0 = Busy aa i x) \<or>
         ((\<exists>aa. workers s ! 0 = Idle aa) \<and> push_queue s \<noteq> [])" by blast
    from worker_moves[OF 0 this, of "worker_func v" "worker_init v" "init_kwargs v" args]
    obtain s' where "step v args (Worker 0) s = Some s'" by auto
    then show ?thesis by blast
  qed
qed

lemma sorted_indexed_results:
  assumes keys: "mset (map fst rs) = mset [0..<n]"
    and vals: "\<forall>p \<in> set rs. snd p = h (fst p)"
  shows "map snd (sort_key fst rs) = map h [0..<n]"
proof -
  let ?ss = "sort_key fst rs"
  have "mset (map fst ?ss) = mset [0..<n]"
    using keys by (simp del: mset_upt)
  moreover have "sorted (map fst ?ss)" by (rule sorted_sort_key)
  ultimately have "sort [0..<n] = map fst ?ss" by (rule properties_for_sort)
  then have k: "map fst ?ss = [0..<n]" by (simp add: sorted_sort_id)
  have "map snd ?ss = map (h \<circ> fst) ?ss" using vals by simp
  also have "\<dots> = map h (map fst ?ss)" by simp
  finally show ?thesis using k by simp
qed

lemma finished_output:
  assumes s: "sound v args xs g s" and f: "pc s = Finished"
  shows "map snd (sort_key fst (result s)) = map g xs"
    and "length (result s) = length xs"
proof -
  have m: "main_ok (nat (num_workers v)) xs s" and c: "content_ok v args xs g s"
    and t: "tokens s = mset [0..<index s]"
    using s by (simp_all add: sound_def)
  have "index s = length (result s)" using m f by (simp add: main_ok_def flow_def)
  moreover have "drop (index s) xs = []" "index s \<le> length xs"
    using m f by (simp_all add: main_ok_def)
  ultimately have n: "index s = length xs" "length (result s) = length xs" by simp_all
  have "size (tokens s) = length xs" using t n by (simp del: mset_upt)
  with n have "sum_list (map work_idx (push_queue s)) = {#}"
    "sum_list (map held (workers s)) = {#}" "pull_queue s = []"
    by (simp_all add: size_tokens)
  with t n have keys: "mset (map fst (result s)) = mset [0..<length xs]"
    by (simp add: tokens_def del: mset_upt)
  have vals: "\<forall>p \<in> set (result s). snd p = (\<lambda>i. g (xs ! i)) (fst p)"
    using c by (simp add: content_ok_def list_all_iff res_ok_def)
  have "map snd (sort_key fst (result s)) = map (\<lambda>i. g (xs ! i)) [0..<length xs]"
    using keys vals by (rule sorted_indexed_results)
  also have "\<dots> = map g (map (\<lambda>i. xs ! i) [0..<length xs])" by simp
  also have "\<dots> = map g xs" by (simp only: map_nth)
  finally show "map snd (sort_key fst (result s)) = map g xs" .
  show "length (result s) = length xs" by (rule n(2))
qed

lemma run_exists:
  assumes w: "0 < num_workers v"
    and u: "uniform v args (nat (num_workers v)) xs g"
    and s: "sound v args xs g s"
  shows "\<exists>sched s'. exec v args sched s = Some s' \<and> pc s' = Finished"
  using s
proof (induction "meas s" arbitrary: s rule: less_induct)
  case less
  show ?case
  proof (cases "pc s = Finished")
    case True
    then have "exec v args [] s = Some s \<and> pc s = Finished" by simp
    then show ?thesis by blast
  next
    case False
    from progress[OF w less.prems False] obtain a t where st: "step v args a s = Some t" by blast
    from sound_step[OF w u less.prems st] have "sound v args xs g t" .
    from less.hyps[OF meas_step[OF st] this] obtain sched s' where
      "exec v args sched t = Some s'" "pc s' = Finished" by blast
    with st have "exec v args (a # sched) s = Some s' \<and> pc s' = Finished" by simp
    then show ?thesis by blast
  qed
qed


lemma not_stuck:
  assumes "step v args a s = Some s'"
  shows "\<not> stuck v args s"
proof (cases a)
  case Main
  with assms show ?thesis by (simp add: stuck_def)
next
  case (Worker r)
  with assms have "worker_step r (worker_func v) (worker_init v) (init_kwargs v) args s = Some s'"
    by simp
  then have "r < length (workers s)" by (cases rule: worker_stepE) simp_all
  with assms Worker show ?thesis by (auto simp: stuck_def list_all_iff)
qed

lemma process_consumers_returns:
  assumes w: "0 < num_workers v"
    and u: "uniform v args (nat (num_workers v)) xs g"
    and p: "process_consumers v xs args sched = Some r"
  shows "outcome r = Return (map g xs)"
proof -
  from p obtain s where ex: "exec v args sched (consumers_init v xs) = Some s"
    by (auto simp: process_consumers_def split: option.splits)
  note snd = sound_exec[OF w u ex]
  show ?thesis
  proof (cases "pc s = Finished")
    case True
    with p ex finished_output(1)[OF snd True] show ?thesis
      by (auto simp: process_consumers_def Let_def)
  next
    case False
    from progress[OF w snd False] obtain a s' where "step v args a s = Some s'" by blast
    then have "\<not> stuck v args s" by (rule not_stuck)
    with p ex False show ?thesis by (simp add: process_consumers_def Let_def)
  qed
qed

lemma process_consumers_completes:
  assumes w: "0 < num_workers v"
    and u: "uniform v args (nat (num_workers v)) xs g"
  shows "\<exists>sched r. process_consumers v xs args sched = Some r"
proof -
  from run_exists[OF w u sound_init] obtain sched s' where
    "exec v args sched (consumers_init v xs) = Some s'" "pc s' = Finished" by blast
  then have "\<exists>r. process_consumers v xs args sched = Some r"
    by (simp add: process_consumers_def Let_def)
  then show ?thesis by blast
qed


lemma cb_calls_exec:
  assumes "exec v args sched (consumers_init v xs) = Some s"
  shows "cb_calls s = (if callback_func v \<noteq> None then length (result s) else 0)"
proof (rule exec_invariant[OF assms])
  show "cb_calls (consumers_init v xs) =
        (if callback_func v \<noteq> None then length (result (consumers_init v xs)) else 0)"
    by (simp add: consumers_init_def)
next
  fix a t t'
  assume t: "cb_calls t = (if callback_func v \<noteq> None then length (result t) else 0)"
    and st: "step v args a t = Some t'"
  show "cb_calls t' = (if callback_func v \<noteq> None then length (result t') else 0)"
  proof (cases a)
    case Main
    with st have "main_step v t = Some t'" by simp
    then show ?thesis using t by (cases rule: main_stepE) simp_all
  next
    case (Worker r)
    with st have "worker_step r (worker_func v) (worker_init v) (init_kwargs v) args t = Some t'"
      by simp
    then show ?thesis using t by (cases rule: worker_stepE) simp_all
  qed
qed

lemma process_consumers_callbacks:
  assumes w: "0 < num_workers v"
    and u: "uniform v args (nat (num_workers v)) xs g"
    and p: "process_consumers v xs args sched = Some r"
  shows "callbacks r = (if callback_func v = None then 0 else length xs)"
proof -
  from p obtain s where ex: "exec v args sched (consumers_init v xs) = Some s"
    by (auto simp: process_consumers_def split: option.splits)
  note snd = sound_exec[OF w u ex]
  show ?thesis
  proof (cases "pc s = Finished")
    case True
    with p ex cb_calls_exec[OF ex] finished_output(2)[OF snd True] show ?thesis
      by (auto simp: process_consumers_def Let_def)
  next
    case False
    from progress[OF w snd False] obtain a s' where "step v args a s = Some s'" by blast
    then have "\<not> stuck v args s" by (rule not_stuck)
    with p ex False show ?thesis by (simp add: process_consumers_def Let_def)
  qed
qed



section \<open>Claims about the dynamic mode and about all modes\<close>

text \<open>
  C6: in dynamic mode with W \<ge> 1 workers, in every state a call of \<^verbatim>\<open>process\<close> can reach,
  the number of items dispatched to the work queue whose result has not been received
  lies between 0 and W; during priming nothing has been received and at most W items
  have been dispatched; and every step that dispatches an item starts from a state with
  fewer than W items in flight, that is, after priming, only after a result was
  received.
\<close>

theorem in_flight_bounded:
  assumes "0 < num_workers v" and "exec v args sched (consumers_init v xs) = Some s"
  shows "0 \<le> in_flight s \<and> in_flight s \<le> num_workers v \<and>
         (\<forall>k. pc s = Prime k \<longrightarrow> result s = [] \<and> int (index s) \<le> num_workers v) \<and>
         (\<forall>a s'. step v args a s = Some s' \<and> index s < index s' \<longrightarrow>
                  in_flight s < num_workers v)"
proof -
  let ?w = "nat (num_workers v)"
  have f: "flow ?w s" using assms by (rule flow_exec)
  have w: "int ?w = num_workers v" using assms(1) by simp
  have a: "0 \<le> in_flight s" "in_flight s \<le> num_workers v"
    using flow_in_flight_lower[OF _ f] flow_in_flight_upper[OF f] w assms(1) by simp_all
  have b: "\<forall>k. pc s = Prime k \<longrightarrow> result s = [] \<and> int (index s) \<le> num_workers v"
  proof (intro allI impI)
    fix k assume "pc s = Prime k"
    with f have "index s + k = ?w" "result s = []" by (simp_all add: flow_def)
    then have "index s \<le> ?w" by arith
    then have "int (index s) \<le> int ?w" by (simp only: of_nat_le_iff)
    then have "int (index s) \<le> num_workers v" unfolding w .
    with \<open>result s = []\<close> show "result s = [] \<and> int (index s) \<le> num_workers v" by simp
  qed
  have c: "\<forall>a s'. step v args a s = Some s' \<and> index s < index s' \<longrightarrow> in_flight s < num_workers v"
  proof (intro allI impI, elim conjE)
    fix a s' assume st: "step v args a s = Some s'" and lt: "index s < index s'"
    have "exec v args (sched @ [a]) (consumers_init v xs) = Some s'"
      using assms(2) st by (simp add: exec_append)
    with assms(1) have "flow ?w s'" by (rule flow_exec)
    from flow_in_flight_upper[OF this] w have "in_flight s' \<le> num_workers v" by simp
    moreover have "in_flight s' = in_flight s + 1"
      using index_step[OF st lt] by (simp add: in_flight_def)
    ultimately show "in_flight s < num_workers v" by simp
  qed
  from a b c show ?thesis by (intro conjI)
qed

theorem in_flight_bounded_witness:
  "0 < num_workers (Vectorizer 8 square None None 2 []) \<and>
   exec (Vectorizer 8 square None None 2 []) [] [Main, Main]
     (consumers_init (Vectorizer 8 square None None 2 []) [VInt 1, VInt 2, VInt 3]) =
   Some \<lparr> workers = [Spawned, Spawned], push_queue = [Some (0, VInt 1), Some (1, VInt 2)],
          pull_queue = [], iterator = [VInt 3], index = 2, expect = 2, result = [],
          cb_calls = 0, pc = Prime 0, events = [] \<rparr> \<and>
   in_flight \<lparr> workers = [Spawned, Spawned], push_queue = [Some (0, VInt 1), Some (1, VInt 2)],
          pull_queue = [], iterator = [VInt 3], index = 2, expect = 2, result = [],
          cb_calls = 0, pc = Prime 0, events = [] \<rparr>
     \<le> num_workers (Vectorizer 8 square None None 2 [])"
proof -
  have h1: "0 < num_workers (Vectorizer 8 square None None 2 [])"
    by (simp add: Vectorizer_def)
  have h2: "exec (Vectorizer 8 square None None 2 []) [] [Main, Main]
     (consumers_init (Vectorizer 8 square None None 2 []) [VInt 1, VInt 2, VInt 3]) =
   Some \<lparr> workers = [Spawned, Spawned], push_queue = [Some (0, VInt 1), Some (1, VInt 2)],
          pull_queue = [], iterator = [VInt 3], index = 2, expect = 2, result = [],
          cb_calls = 0, pc = Prime 0, events = [] \<rparr>"
    by (simp add: Vectorizer_def consumers_init_def main_step_def dispatch_def numeral_2_eq_2)
  show ?thesis using h1 h2 in_flight_bounded [OF h1 h2] by blast
qed

text \<open>
  C8: in every mode (the sequential run, the workers of the static mode, every state
  the dynamic mode can reach), each call of the transform made in the context of rank
  \<open>r\<close> gets, after the item, exactly the call-site arguments followed by the arguments
  derived from what the init function returned for \<open>r\<close>; all calls of one worker get the
  same list; and without an init function they get the call-site arguments only.
\<close>

theorem merged_arguments:
  assumes "tr = trace (process_sequential v xs args) \<or>
           tr = trace (process_batches v xs args) \<or>
           (\<exists>sched s. exec v args sched (consumers_init v xs) = Some s \<and> tr = events s)"
    and "FuncCall r x aa \<in> set tr"
  shows "(case worker_init v of
            None \<Rightarrow> aa = args
          | Some init \<Rightarrow> (\<exists>b. init r (init_kwargs v) = Inr b \<and> aa = args @ init_derived b)) \<and>
         (\<forall>x' aa'. FuncCall r x' aa' \<in> set tr \<longrightarrow> aa' = aa)"
proof -
  have wa: "worker_args v args r = Some aa"
    using assms by (rule calls_carry_worker_args)
  have same: "\<forall>x' aa'. FuncCall r x' aa' \<in> set tr \<longrightarrow> aa' = aa"
  proof (intro allI impI)
    fix x' aa' assume "FuncCall r x' aa' \<in> set tr"
    with assms(1) have "worker_args v args r = Some aa'" by (rule calls_carry_worker_args)
    with wa show "aa' = aa" by simp
  qed
  from worker_args_derived[OF wa] same show ?thesis by (intro conjI)
qed


theorem merged_arguments_witness:
  "exec (Vectorizer 8 square (Some rank_init) None 1 []) [VStr ''a'']
     [Main, Main, Worker 0, Worker 0, Worker 0]
     (consumers_init (Vectorizer 8 square (Some rank_init) None 1 []) [VInt 3]) =
   Some \<lparr> workers = [Idle [VStr ''a'', VInt 0]], push_queue = [], pull_queue = [(0, VInt 9)],
          iterator = [], index = 1, expect = 1, result = [], cb_calls = 0, pc = Await,
          events = [InitCall 0 [], FuncCall 0 (VInt 3) [VStr ''a'', VInt 0]] \<rparr> \<and>
   (\<exists>b. rank_init 0 [] = Inr b \<and> [VStr ''a'', VInt 0] = [VStr ''a''] @ init_derived b)"
proof -
  let ?v = "Vectorizer 8 square (Some rank_init) None 1 []"
  let ?s = "\<lparr> workers = [Idle [VStr ''a'', VInt 0]], push_queue = [], pull_queue = [(0, VInt 9)],
          iterator = [], index = 1, expect = 1, result = [], cb_calls = 0, pc = Await,
          events = [InitCall 0 [], FuncCall 0 (VInt 3) [VStr ''a'', VInt 0]] \<rparr>"
  have run: "exec ?v [VStr ''a''] [Main, Main, Worker 0, Worker 0, Worker 0]
               (consumers_init ?v [VInt 3]) = Some ?s"
    by (simp add: Vectorizer_def consumers_init_def main_step_def dispatch_def worker_step_def
        init_if_needed_def rank_init_def)
  have h1: "events ?s = trace (process_sequential ?v [VInt 3] [VStr ''a'']) \<or>
            events ?s = trace (process_batches ?v [VInt 3] [VStr ''a'']) \<or>
            (\<exists>sched s. exec ?v [VStr ''a''] sched (consumers_init ?v [VInt 3]) = Some s \<and>
                       events ?s = events s)"
    using run by blast
  have h2: "FuncCall 0 (VInt 3) [VStr ''a'', VInt 0] \<in> set (events ?s)" by simp
  have "worker_init ?v = Some rank_init" "init_kwargs ?v = []" by (simp_all add: Vectorizer_def)
  with merged_arguments [OF h1 h2]
  have "\<exists>b. rank_init 0 [] = Inr b \<and> [VStr ''a'', VInt 0] = [VStr ''a''] @ init_derived b"
    by simp
  with run show ?thesis by (intro conjI)
qed





text \<open>
  C7 as stated fails: each worker passes the result of its own init call, made with its
  own rank, to the transform, and the two schedulers assign items to ranks differently.
  With an init function that returns the rank and a transform that returns its last
  argument, two workers and two items, the static mode returns \<^verbatim>\<open>[0, 1]\<close> (one item per
  shard), while the dynamic mode, in the run where worker 0 takes both items before
  worker 1 has started, returns \<^verbatim>\<open>[0, 0]\<close>.
\<close>

theorem static_dynamic_counterexample:
  "map_option outcome
     (process (Vectorizer 8 last_arg (Some rank_init) None 2 []) (Indexable [VInt 10, VInt 20])
        [] []) = Some (Return [VInt 0, VInt 1]) \<and>
   map_option outcome
     (process (Vectorizer 8 last_arg (Some rank_init) None 2 []) (Iterable [VInt 10, VInt 20])
        [] [Main, Main, Main, Worker 0, Worker 0, Worker 0, Worker 0, Worker 0,
            Main, Main, Main, Main]) = Some (Return [VInt 0, VInt 0])"
proof -
  let ?v = "Vectorizer 8 last_arg (Some rank_init) None 2 []"
  have s: "outcome (process_batches ?v [VInt 10, VInt 20] []) = Return [VInt 0, VInt 1]"
    by (simp add: Vectorizer_def process_batches_def batch_splits_eq shard_start_def
        batch_workers_def batch_worker_def init_if_needed_def slice_def batch_collect_def
        rank_init_def last_arg_def numeral_2_eq_2)
  have d: "exec ?v [] [Main, Main, Main, Worker 0, Worker 0, Worker 0, Worker 0, Worker 0,
            Main, Main, Main, Main] (consumers_init ?v [VInt 10, VInt 20]) =
        Some \<lparr> workers = [Idle [VInt 0], Spawned], push_queue = [], pull_queue = [],
               iterator = [], index = 2, expect = 1,
               result = [(0, VInt 0), (1, VInt 0)], cb_calls = 0, pc = Finished,
               events = [InitCall 0 [], FuncCall 0 (VInt 10) [VInt 0],
                         FuncCall 0 (VInt 20) [VInt 0]] \<rparr>"
    by (simp add: Vectorizer_def consumers_init_def main_step_def dispatch_def receive_def
        worker_step_def init_if_needed_def rank_init_def last_arg_def numeral_2_eq_2)
  have ne: "num_workers ?v \<noteq> 0" by (simp add: Vectorizer_def)
  show ?thesis using s d ne
    by (simp add: process_def process_consumers_def Let_def option.map_comp comp_def)
qed

text \<open>
  C7, amended: for W \<ge> 1 workers and an indexable input of at least W items, if every
  worker's init call returns and the transform returns on every item a result that does
  not depend on the worker's rank, then the static mode and the dynamic mode produce the
  same ordered output, the transform's results in input order: the static mode returns
  it, every completed run of the dynamic mode returns it, the dynamic mode has a
  completed run, and no run of the dynamic mode takes more than 4 N + W + 3 steps, so
  that it cannot go on for ever.
\<close>

theorem static_dynamic_agree:
  assumes "0 < num_workers v"
    and "nat (num_workers v) \<le> length xs"
    and "uniform v args (nat (num_workers v)) xs g"
  shows "(\<forall>sched. map_option outcome (process v (Indexable xs) args sched) =
                   Some (Return (map g xs))) \<and>
         (\<forall>sched r. process v (Iterable xs) args sched = Some r \<longrightarrow>
                     outcome r = Return (map g xs)) \<and>
         (\<exists>sched r. process v (Iterable xs) args sched = Some r) \<and>
         (\<forall>sched s. exec v args sched (consumers_init v xs) = Some s \<longrightarrow>
                     length sched \<le> 4 * length xs + nat (num_workers v) + 3)"
proof -
  have ne: "num_workers v \<noteq> 0" using assms(1) by simp
  have a: "\<forall>sched. map_option outcome (process v (Indexable xs) args sched) =
                   Some (Return (map g xs))"
    using process_batches_ok(1)[OF assms] ne by (simp add: process_def)
  have b: "\<forall>sched r. process v (Iterable xs) args sched = Some r \<longrightarrow>
                     outcome r = Return (map g xs)"
  proof (intro allI impI)
    fix sched r assume "process v (Iterable xs) args sched = Some r"
    with ne obtain r' where r': "process_consumers v xs args sched = Some r'" "r = release r'"
      by (auto simp: process_def)
    from process_consumers_returns[OF assms(1,3) r'(1)] r'(2)
    show "outcome r = Return (map g xs)" by simp
  qed
  have c: "\<exists>sched r. process v (Iterable xs) args sched = Some r"
    using process_consumers_completes[OF assms(1,3)] ne by (auto simp: process_def)
  have d: "\<forall>sched s. exec v args sched (consumers_init v xs) = Some s \<longrightarrow>
                     length sched \<le> 4 * length xs + nat (num_workers v) + 3"
  proof (intro allI impI)
    fix sched s assume "exec v args sched (consumers_init v xs) = Some s"
    from exec_bounded[OF this] show "length sched \<le> 4 * length xs + nat (num_workers v) + 3"
      by (simp add: meas_init)
  qed
  from a b c d show ?thesis by (intro conjI)
qed


theorem static_dynamic_agree_witness:
  "0 < num_workers (Vectorizer 8 square None None 2 []) \<and>
   nat (num_workers (Vectorizer 8 square None None 2 [])) \<le> length [VInt 1, VInt 2, VInt 3] \<and>
   uniform (Vectorizer 8 square None None 2 []) []
     (nat (num_workers (Vectorizer 8 square None None 2 []))) [VInt 1, VInt 2, VInt 3] squared \<and>
   map_option outcome
     (process (Vectorizer 8 square None None 2 []) (Indexable [VInt 1, VInt 2, VInt 3]) [] []) =
     Some (Return [VInt 1, VInt 4, VInt 9]) \<and>
   (\<exists>sched r. process (Vectorizer 8 square None None 2 []) (Iterable [VInt 1, VInt 2, VInt 3]) []
                 sched = Some r \<and> outcome r = Return [VInt 1, VInt 4, VInt 9])"
proof -
  let ?v = "Vectorizer 8 square None None 2 []"
  let ?xs = "[VInt 1, VInt 2, VInt 3]"
  have h1: "0 < num_workers ?v" by (simp add: Vectorizer_def)
  have h2: "nat (num_workers ?v) \<le> length ?xs" by (simp add: Vectorizer_def)
  have h3: "uniform ?v [] (nat (num_workers ?v)) ?xs squared"
    unfolding uniform_iff by (simp add: Vectorizer_def worker_args_def init_if_needed_def)
  note t = static_dynamic_agree [OF h1 h2 h3]
  from t have a: "map_option outcome (process ?v (Indexable ?xs) [] []) =
      Some (Return (map squared ?xs))" by blast
  from t obtain sched r where r: "process ?v (Iterable ?xs) [] sched = Some r" by blast
  with t have "outcome r = Return (map squared ?xs)" by blast
  with r have b: "\<exists>sched r. process ?v (Iterable ?xs) [] sched = Some r \<and>
      outcome r = Return [VInt 1, VInt 4, VInt 9]" by auto
  from h1 h2 h3 a b show ?thesis by simp
qed

text \<open>
  C10 as stated fails in its last sentence: an init function does supply a single
  tuple-valued extra argument when it returns that tuple wrapped in a one-element tuple.
  Here the init function returns \<^verbatim>\<open>((1, 2),)\<close> and the transform is called with the
  call-site argument and the one trailing argument \<^verbatim>\<open>(1, 2)\<close>.
\<close>

theorem wrapped_tuple_is_passed_whole:
  "trace (process_sequential (Vectorizer 8 square (Some wrapped_pair_init) None 0 []) [VInt 7] [VStr ''a'']) =
     [InitCall 0 [], FuncCall 0 (VInt 7) [VStr ''a'', VTuple [VInt 1, VInt 2]]]"
  by (simp add: process_sequential_def Vectorizer_def init_if_needed_def wrapped_pair_init_def)

text \<open>
  C10, amended: in every mode, every call of the transform by a worker whose init
  function returned a tuple gets the elements of that tuple as individual trailing
  arguments after the call-site arguments, so the returned tuple itself is never passed
  as one argument; when it returned any other value that is not \<^verbatim>\<open>None\<close>, the call gets
  that value as a single trailing argument; a single tuple-valued extra argument is
  supplied by returning it wrapped in a one-element tuple.
\<close>

theorem init_result_is_spread:
  assumes "tr = trace (process_sequential v xs args) \<or>
           tr = trace (process_batches v xs args) \<or>
           (\<exists>sched s. exec v args sched (consumers_init v xs) = Some s \<and> tr = events s)"
    and "FuncCall r x aa \<in> set tr"
    and "worker_init v = Some init"
  shows "\<exists>b. init r (init_kwargs v) = Inr b \<and>
             (\<forall>ys. b = VTuple ys \<longrightarrow> aa = args @ ys \<and> aa \<noteq> args @ [b]) \<and>
             (b \<noteq> VNone \<and> (\<forall>ys. b \<noteq> VTuple ys) \<longrightarrow> aa = args @ [b]) \<and>
             (\<forall>t. b = VTuple [VTuple t] \<longrightarrow> aa = args @ [VTuple t])"
proof -
  have "worker_args v args r = Some aa"
    using assms(1,2) by (rule calls_carry_worker_args)
  then obtain b where b: "init r (init_kwargs v) = Inr b" "aa = combine_args args b"
    using assms(3) by (auto simp: worker_args_def init_if_needed_def split: sum.splits)
  have 1: "\<forall>ys. b = VTuple ys \<longrightarrow> aa = args @ ys \<and> aa \<noteq> args @ [b]"
    using b(2) by (auto simp: list_neq_singleton_tuple)
  have 2: "b \<noteq> VNone \<and> (\<forall>ys. b \<noteq> VTuple ys) \<longrightarrow> aa = args @ [b]"
    using b(2) by (cases b) simp_all
  have 3: "\<forall>t. b = VTuple [VTuple t] \<longrightarrow> aa = args @ [VTuple t]"
    using b(2) by simp
  from b(1) 1 2 3 show ?thesis by blast
qed

theorem init_result_is_spread_witness:
  "exec (Vectorizer 8 square (Some pair_init) None 1 []) [VStr ''a'']
     [Main, Main, Worker 0, Worker 0, Worker 0]
     (consumers_init (Vectorizer 8 square (Some pair_init) None 1 []) [VInt 3]) =
   Some \<lparr> workers = [Idle [VStr ''a'', VInt 1, VInt 2]], push_queue = [],
          pull_queue = [(0, VInt 9)], iterator = [], index = 1, expect = 1, result = [],
          cb_calls = 0, pc = Await,
          events = [InitCall 0 [], FuncCall 0 (VInt 3) [VStr ''a'', VInt 1, VInt 2]] \<rparr> \<and>
   worker_init (Vectorizer 8 square (Some pair_init) None 1 []) = Some pair_init \<and>
   (\<exists>b. pair_init 0 [] = Inr b \<and>
        (\<forall>ys. b = VTuple ys \<longrightarrow>
           [VStr ''a'', VInt 1, VInt 2] = [VStr ''a''] @ ys \<and>
           [VStr ''a'', VInt 1, VInt 2] \<noteq> [VStr ''a''] @ [b]))"
proof -
  let ?v = "Vectorizer 8 square (Some pair_init) None 1 []"
  let ?s = "\<lparr> workers = [Idle [VStr ''a'', VInt 1, VInt 2]], push_queue = [],
          pull_queue = [(0, VInt 9)], iterator = [], index = 1, expect = 1, result = [],
          cb_calls = 0, pc = Await,
          events = [InitCall 0 [], FuncCall 0 (VInt 3) [VStr ''a'', VInt 1, VInt 2]] \<rparr>"
  have run: "exec ?v [VStr ''a''] [Main, Main, Worker 0, Worker 0, Worker 0]
               (consumers_init ?v [VInt 3]) = Some ?s"
    by (simp add: Vectorizer_def consumers_init_def main_step_def dispatch_def worker_step_def
        init_if_needed_def pair_init_def)
  have h1: "events ?s = trace (process_sequential ?v [VInt 3] [VStr ''a'']) \<or>
            events ?s = trace (process_batches ?v [VInt 3] [VStr ''a'']) \<or>
            (\<exists>sched s. exec ?v [VStr ''a''] sched (consumers_init ?v [VInt 3]) = Some s \<and>
                       events ?s = events s)"
    using run by blast
  have h2: "FuncCall 0 (VInt 3) [VStr ''a'', VInt 1, VInt 2] \<in> set (events ?s)" by simp
  have h3: "worker_init ?v = Some pair_init" by (simp add: Vectorizer_def)
  have kw: "init_kwargs ?v = []" by (simp add: Vectorizer_def)
  from init_result_is_spread [OF h1 h2 h3]
  have "\<exists>b. pair_init 0 [] = Inr b \<and>
        (\<forall>ys. b = VTuple ys \<longrightarrow>
           [VStr ''a'', VInt 1, VInt 2] = [VStr ''a''] @ ys \<and>
           [VStr ''a'', VInt 1, VInt 2] \<noteq> [VStr ''a''] @ [b])"
    unfolding kw by blast
  with run h3 show ?thesis by (intro conjI)
qed

end
